theory Spec2Isabelle
  imports Main "HOL-Library.Multiset" "HOL-Library.Signed_Division"
begin

section \<open>The fixed-capacity binary max-heap of binary\_heap.hpp\<close>

text \<open>
  The class \<open>binary_heap<T>\<close> keeps three fields: \<open>_sizeMax\<close>, \<open>_size\<close> and the
  vector \<open>_heap\<close>. The element type \<open>T\<close> is any linear order.

  The source computes indices in \<open>int\<close>, which is 32 bits wide. An index is an
  \<open>int\<close> here too, and the width is written out where the source can leave it: a
  signed overflow in \<open>left_child\<close> or \<open>right_child\<close> is undefined behaviour, and a
  \<open>size_t\<close> converted to \<open>int\<close> keeps its low 32 bits. \<open>size_t\<close> values are \<open>nat\<close>:
  the one \<open>size_t\<close> computation that can wrap, \<open>size() - 1\<close> on an empty heap, is
  an index out of range either way. On a heap of fewer than \<open>2^30\<close> slots no index
  computation overflows and every conversion keeps its value; each theorem whose
  statement depends on that carries the bound as a hypothesis.

  \<open>std::vector::operator[]\<close> does not check its index. An access outside
  \<open>[0, _heap.size())\<close> is undefined behaviour in C++; the model makes it the
  outcome \<open>Undefined\<close>. A thrown exception is the outcome \<open>Throws\<close>, which carries
  the object's state at the throw.
\<close>

subsection \<open>Machine integers\<close>

definition INT_MAX :: int where
  "INT_MAX = 2147483647"

definition INT_MIN :: int where
  "INT_MIN = - 2147483648"

text \<open>The result of a signed \<open>int\<close> operation: \<open>None\<close> when it overflows, which is
  undefined behaviour in C++.\<close>

definition in_int :: "int \<Rightarrow> int option" where
  "in_int k = (if INT_MIN \<le> k \<and> k \<le> INT_MAX then Some k else None)"

text \<open>A \<open>size_t\<close> converted to \<open>int\<close> (by \<open>static_cast<int>\<close>, by passing it for an
  \<open>int\<close> parameter or by returning it from a function of type \<open>int\<close>): the value
  modulo \<open>2^32\<close>, read as two's complement.\<close>

definition to_int :: "nat \<Rightarrow> int" where
  "to_int n = (let m = int n mod 4294967296 in if m \<le> INT_MAX then m else m - 4294967296)"

subsection \<open>Outcomes and vector accesses\<close>

datatype exn = runtime_error string

datatype ('r, 's) outcome = Returns 'r 's | Throws exn 's | Undefined

definition and_then ::
  "('r, 's) outcome \<Rightarrow> ('r \<Rightarrow> 's \<Rightarrow> ('q, 's) outcome) \<Rightarrow> ('q, 's) outcome" where
  "and_then m f = (case m of Returns r s \<Rightarrow> f r s | Throws e s \<Rightarrow> Throws e s | Undefined \<Rightarrow> Undefined)"

text \<open>\<open>v[n]\<close> as an rvalue; \<open>None\<close> is the out-of-range access. A negative \<open>int\<close> index
  converts to a huge \<open>size_t\<close>, and \<open>size() - 1\<close> on an empty heap wraps to
  \<open>SIZE_MAX\<close>: both are out of range, as the negative \<open>int\<close> is here.\<close>

definition at :: "'a list \<Rightarrow> int \<Rightarrow> 'a option" where
  "at v n = (if 0 \<le> n \<and> n < int (length v) then Some (v ! nat n) else None)"

text \<open>\<open>v[n] = x\<close>.\<close>

definition put :: "'a list \<Rightarrow> int \<Rightarrow> 'a \<Rightarrow> 'a list option" where
  "put v n x = (if 0 \<le> n \<and> n < int (length v) then Some (v[nat n := x]) else None)"

text \<open>\<open>std::swap(v[i], v[j])\<close>.\<close>

definition std_swap :: "'a list \<Rightarrow> int \<Rightarrow> int \<Rightarrow> 'a list option" where
  "std_swap v i j =
     (case at v i of None \<Rightarrow> None
      | Some a \<Rightarrow> (case at v j of None \<Rightarrow> None
          | Some b \<Rightarrow> Some (v[nat i := b, nat j := a])))"

subsection \<open>The object and its accessors\<close>

record 'a binary_heap =
  m_sizeMax :: nat
  m_size :: nat
  m_heap :: "'a list"

text \<open>\<open>binary_heap(size_t sizeMax)\<close>: the vector is built with \<open>sizeMax\<close>
  value-initialised elements; \<open>T()\<close> is the parameter \<open>dflt\<close>.\<close>

definition binary_heap_sized :: "'a \<Rightarrow> nat \<Rightarrow> 'a binary_heap" where
  "binary_heap_sized dflt sizeMax = \<lparr>m_sizeMax = sizeMax, m_size = 0, m_heap = replicate sizeMax dflt\<rparr>"

definition size_heap :: "'a binary_heap \<Rightarrow> nat" where
  "size_heap h = m_size h"

definition empty_heap :: "'a binary_heap \<Rightarrow> bool" where
  "empty_heap h = (if size_heap h = 0 then True else False)"

definition full :: "'a binary_heap \<Rightarrow> bool" where
  "full h = (if size_heap h = m_sizeMax h then True else False)"

text \<open>C++ integer division truncates towards zero: \<open>sdiv\<close>. \<open>index - 1\<close> overflows
  at \<open>INT_MIN\<close> only, and \<open>sift_up\<close>, the one caller, passes an \<open>index > 0\<close>.\<close>

definition parent :: "int \<Rightarrow> int" where
  "parent index = (index - 1) sdiv 2"

text \<open>\<open>(2*index) + 1\<close> and \<open>(2*index) + 2\<close>: the product and the sum can each
  overflow.\<close>

definition left_child :: "int \<Rightarrow> int option" where
  "left_child index = (case in_int (2 * index) of None \<Rightarrow> None | Some d \<Rightarrow> in_int (d + 1))"

definition right_child :: "int \<Rightarrow> int option" where
  "right_child index = (case in_int (2 * index) of None \<Rightarrow> None | Some d \<Rightarrow> in_int (d + 2))"

subsection \<open>sift\_up and sift\_down\<close>

text \<open>The loop condition of \<open>sift_up\<close>,
  \<open>(index > 0) and (_heap[index] > _heap[parent(index)])\<close>, with its short circuit.\<close>

definition sift_up_cond :: "'a::linorder binary_heap \<Rightarrow> int \<Rightarrow> bool option" where
  "sift_up_cond h index =
     (if index > 0 then
        (case at (m_heap h) index of None \<Rightarrow> None
         | Some a \<Rightarrow> (case at (m_heap h) (parent index) of None \<Rightarrow> None
             | Some b \<Rightarrow> Some (a > b)))
      else Some False)"

function sift_up :: "'a::linorder binary_heap \<Rightarrow> int \<Rightarrow> (unit, 'a binary_heap) outcome" where
  "sift_up h index =
     (case sift_up_cond h index of None \<Rightarrow> Undefined
      | Some go \<Rightarrow>
          if go then
            (case std_swap (m_heap h) (parent index) index of None \<Rightarrow> Undefined
             | Some v \<Rightarrow> sift_up (h\<lparr>m_heap := v\<rparr>) (parent index))
          else Returns () h)"
  by pat_completeness auto
termination
proof (relation "measure (\<lambda>(h, index). nat index)")
  show "wf (measure (\<lambda>(h :: 'a binary_heap, index). nat index))"
    by simp
next
  fix h :: "'a binary_heap" and index go v
  assume "sift_up_cond h index = Some go" and "go"
  then have "0 < index"
    by (auto simp: sift_up_cond_def split: if_splits)
  then have "parent index < index"
    by (auto simp: parent_def signed_divide_int_def sgn_if)
  with \<open>0 < index\<close> show "((h\<lparr>m_heap := v\<rparr>, parent index), (h, index)) \<in> measure (\<lambda>(h, index). nat index)"
    by simp
qed

text \<open>The two conditions of \<open>sift_down\<close>,
  \<open>(child <= static_cast<int>(size())) and (_heap[child] > _heap[maxIndex])\<close>.
  The source compares the child index with \<open><=\<close>.\<close>

definition child_exceeds :: "'a::linorder binary_heap \<Rightarrow> int \<Rightarrow> int \<Rightarrow> bool option" where
  "child_exceeds h child maxIndex =
     (if child \<le> to_int (size_heap h) then
        (case at (m_heap h) child of None \<Rightarrow> None
         | Some a \<Rightarrow> (case at (m_heap h) maxIndex of None \<Rightarrow> None
             | Some b \<Rightarrow> Some (a > b)))
      else Some False)"

function sift_down :: "'a::linorder binary_heap \<Rightarrow> int \<Rightarrow> (unit, 'a binary_heap) outcome" where
  "sift_down h index =
     (case left_child index of None \<Rightarrow> Undefined
      | Some child_l \<Rightarrow>
      (case right_child index of None \<Rightarrow> Undefined
      | Some child_r \<Rightarrow>
      (case child_exceeds h child_l index of None \<Rightarrow> Undefined
      | Some gl \<Rightarrow>
          (let maxIndex = (if gl then child_l else index) in
           case child_exceeds h child_r maxIndex of None \<Rightarrow> Undefined
           | Some gr \<Rightarrow>
               (let maxIndex' = (if gr then child_r else maxIndex) in
                if index \<noteq> maxIndex' then
                  (case std_swap (m_heap h) index maxIndex' of None \<Rightarrow> Undefined
                   | Some v \<Rightarrow> sift_down (h\<lparr>m_heap := v\<rparr>) maxIndex')
                else Returns () h)))))"
  by pat_completeness auto
termination
proof (relation "measure (\<lambda>(h, index). nat (int (length (m_heap h)) - index))")
  show "wf (measure (\<lambda>(h :: 'a binary_heap, index). nat (int (length (m_heap h)) - index)))"
    by simp
next
  fix h :: "'a binary_heap" and index child_l child_r gl maxIndex gr maxIndex' v
  assume cl: "left_child index = Some child_l" and cr: "right_child index = Some child_r"
    and gl: "child_exceeds h child_l index = Some gl"
    and m: "maxIndex = (if gl then child_l else index)"
    and gr: "child_exceeds h child_r maxIndex = Some gr"
    and m': "maxIndex' = (if gr then child_r else maxIndex)"
    and ne: "index \<noteq> maxIndex'"
    and sw: "std_swap (m_heap h) index maxIndex' = Some v"
  from sw have len: "length v = length (m_heap h)" and hi: "maxIndex' < int (length (m_heap h))"
    and lo: "0 \<le> index"
    by (auto simp: std_swap_def at_def split: option.splits if_splits)
  from m m' ne cl cr have "maxIndex' = 2 * index + 1 \<or> maxIndex' = 2 * index + 2"
    by (auto simp: left_child_def right_child_def in_int_def split: if_splits option.splits)
  with lo have "index < maxIndex'"
    by auto
  with hi len
  show "((h\<lparr>m_heap := v\<rparr>, maxIndex'), (h, index)) \<in> measure (\<lambda>(h, index). nat (int (length (m_heap h)) - index))"
    by simp
qed

subsection \<open>The public operations\<close>

text \<open>\<open>build_heap\<close> overwrites all three fields, then runs
  \<open>for(int i = static_cast<int>(size())/2; i >= 0; i--) sift_down(i)\<close>.\<close>

function build_loop :: "'a::linorder binary_heap \<Rightarrow> int \<Rightarrow> (unit, 'a binary_heap) outcome" where
  "build_loop h i =
     (if i \<ge> 0 then
        (case sift_down h i of
           Returns u h' \<Rightarrow> build_loop h' (i - 1)
         | Throws e s \<Rightarrow> Throws e s
         | Undefined \<Rightarrow> Undefined)
      else Returns () h)"
  by pat_completeness auto
termination
  by (relation "measure (\<lambda>(h, i). nat (i + 1))") auto

definition build_heap :: "'a::linorder list \<Rightarrow> (unit, 'a binary_heap) outcome" where
  "build_heap v =
     (let h = \<lparr>m_sizeMax = length v, m_size = length v, m_heap = v\<rparr>
      in build_loop h (to_int (size_heap h) sdiv 2))"

text \<open>\<open>binary_heap(const std::vector<T>& v)\<close>.\<close>

definition binary_heap_from :: "'a::linorder list \<Rightarrow> (unit, 'a binary_heap) outcome" where
  "binary_heap_from v = build_heap v"

definition top_heap :: "'a binary_heap \<Rightarrow> ('a, 'a binary_heap) outcome" where
  "top_heap h = (case at (m_heap h) 0 of None \<Rightarrow> Undefined | Some t \<Rightarrow> Returns t h)"

definition extract_top :: "'a::linorder binary_heap \<Rightarrow> ('a, 'a binary_heap) outcome" where
  "extract_top h =
     (case at (m_heap h) 0 of None \<Rightarrow> Undefined
      | Some top_value \<Rightarrow>
          (case at (m_heap h) (int (size_heap h) - 1) of None \<Rightarrow> Undefined
           | Some last_value \<Rightarrow>
               (case put (m_heap h) 0 last_value of None \<Rightarrow> Undefined
                | Some v \<Rightarrow>
                    and_then (sift_down (h\<lparr>m_heap := v, m_size := m_size h - 1\<rparr>) 0)
                      (\<lambda>u h'. Returns top_value h'))))"

definition insert_heap :: "'a::linorder binary_heap \<Rightarrow> 'a \<Rightarrow> (unit, 'a binary_heap) outcome" where
  "insert_heap h value =
     (if full h then Throws (runtime_error ''binary_heap is full!'') h
      else
        (let h1 = h\<lparr>m_size := m_size h + 1\<rparr> in
         case put (m_heap h1) (int (size_heap h1) - 1) value of None \<Rightarrow> Undefined
         | Some v \<Rightarrow> sift_up (h1\<lparr>m_heap := v\<rparr>) (to_int (size_heap h1 - 1))))"

text \<open>\<open>std::numeric_limits<T>::max()\<close> belongs to the element type: the parameter
  \<open>tmax\<close>.\<close>

definition remove_heap :: "'a::linorder \<Rightarrow> 'a binary_heap \<Rightarrow> int \<Rightarrow> (unit, 'a binary_heap) outcome" where
  "remove_heap tmax h index =
     (case put (m_heap h) index tmax of None \<Rightarrow> Undefined
      | Some v \<Rightarrow>
          and_then (sift_up (h\<lparr>m_heap := v\<rparr>) index)
            (\<lambda>u h1. and_then (extract_top h1) (\<lambda>t h2. Returns () h2)))"

definition change_priority ::
  "'a::linorder binary_heap \<Rightarrow> int \<Rightarrow> 'a \<Rightarrow> (unit, 'a binary_heap) outcome" where
  "change_priority h index priority =
     (case at (m_heap h) index of None \<Rightarrow> Undefined
      | Some old_priority \<Rightarrow>
          (case put (m_heap h) index priority of None \<Rightarrow> Undefined
           | Some v \<Rightarrow>
               if priority > old_priority then sift_up (h\<lparr>m_heap := v\<rparr>) index
               else sift_down (h\<lparr>m_heap := v\<rparr>) index))"

text \<open>\<open>for(size_t i=0; i<size(); i++) if(_heap[i] == value) return i; return -1;\<close>\<close>

function find_loop :: "'a binary_heap \<Rightarrow> 'a \<Rightarrow> nat \<Rightarrow> (int, 'a binary_heap) outcome" where
  "find_loop h value i =
     (if i < size_heap h then
        (case at (m_heap h) (int i) of None \<Rightarrow> Undefined
         | Some a \<Rightarrow> if a = value then Returns (to_int i) h else find_loop h value (i + 1))
      else Returns (- 1) h)"
  by pat_completeness auto
termination
  by (relation "measure (\<lambda>(h, value, i). size_heap h - i)") auto

definition find_heap :: "'a binary_heap \<Rightarrow> 'a \<Rightarrow> (int, 'a binary_heap) outcome" where
  "find_heap h value = find_loop h value 0"

subsection \<open>Sequences of calls\<close>

datatype 'a call = Insert 'a | ExtractTop | Remove int | ChangePriority int 'a

text \<open>One call; the list holds what the call returned (one value for
  \<open>extract_top\<close>, nothing for the \<open>void\<close> methods).\<close>

definition call_heap :: "'a::linorder \<Rightarrow> 'a call \<Rightarrow> 'a binary_heap \<Rightarrow> ('a list, 'a binary_heap) outcome" where
  "call_heap tmax c h =
     (case c of
        Insert x \<Rightarrow> and_then (insert_heap h x) (\<lambda>u h'. Returns [] h')
      | ExtractTop \<Rightarrow> and_then (extract_top h) (\<lambda>t h'. Returns [t] h')
      | Remove i \<Rightarrow> and_then (remove_heap tmax h i) (\<lambda>u h'. Returns [] h')
      | ChangePriority i p \<Rightarrow> and_then (change_priority h i p) (\<lambda>u h'. Returns [] h'))"

text \<open>A sequence of calls stops at the first one that does not return.\<close>

fun calls :: "'a::linorder \<Rightarrow> 'a call list \<Rightarrow> 'a binary_heap \<Rightarrow> ('a list, 'a binary_heap) outcome" where
  "calls tmax [] h = Returns [] h"
| "calls tmax (c # cs) h =
     (case call_heap tmax c h of
        Returns out h' \<Rightarrow>
          (case calls tmax cs h' of
             Returns outs h'' \<Rightarrow> Returns (out @ outs) h''
           | Throws e s \<Rightarrow> Throws e s
           | Undefined \<Rightarrow> Undefined)
      | Throws e s \<Rightarrow> Throws e s
      | Undefined \<Rightarrow> Undefined)"

subsection \<open>The properties the specification names\<close>

text \<open>The object is well formed: \<open>0 \<le> count \<le> capacity\<close> and the vector has
  \<open>capacity\<close> slots.\<close>

definition well_formed :: "'a binary_heap \<Rightarrow> bool" where
  "well_formed h = (m_size h \<le> m_sizeMax h \<and> length (m_heap h) = m_sizeMax h)"

text \<open>The max-heap invariant over the live range, as the specification words it.\<close>

definition max_heap :: "'a::linorder binary_heap \<Rightarrow> bool" where
  "max_heap h =
     (\<forall>i \<in> {0 ..< m_size h}. \<forall>c \<in> {2 * i + 1, 2 * i + 2}. c < m_size h \<longrightarrow> m_heap h ! c \<le> m_heap h ! i)"

text \<open>The live elements, as a multiset.\<close>

definition live :: "'a binary_heap \<Rightarrow> 'a multiset" where
  "live h = mset (take (m_size h) (m_heap h))"

subsection \<open>Predicates for the proofs\<close>

text \<open>The invariant stated from the child's side over a list with \<open>n\<close> live slots,
  and its two relaxations: every edge holds except the ones from \<open>i\<close> down to
  its children, or except the one from \<open>i\<close> up to its parent. In both relaxations
  the parent of \<open>i\<close> still dominates the children of \<open>i\<close>.\<close>

definition heap_upto :: "nat \<Rightarrow> 'a::linorder list \<Rightarrow> bool" where
  "heap_upto n xs = (\<forall>c. 0 < c \<and> c < n \<longrightarrow> xs ! c \<le> xs ! ((c - 1) div 2))"

definition heap_except_down :: "nat \<Rightarrow> 'a::linorder list \<Rightarrow> nat \<Rightarrow> bool" where
  "heap_except_down n xs i =
     ((\<forall>c. 0 < c \<and> c < n \<and> (c - 1) div 2 \<noteq> i \<longrightarrow> xs ! c \<le> xs ! ((c - 1) div 2)) \<and>
      (\<forall>c. 0 < c \<and> c < n \<and> (c - 1) div 2 = i \<and> 0 < i \<longrightarrow> xs ! c \<le> xs ! ((i - 1) div 2)))"

definition heap_except_up :: "nat \<Rightarrow> 'a::linorder list \<Rightarrow> nat \<Rightarrow> bool" where
  "heap_except_up n xs i =
     ((\<forall>c. 0 < c \<and> c < n \<and> c \<noteq> i \<longrightarrow> xs ! c \<le> xs ! ((c - 1) div 2)) \<and>
      (\<forall>c. 0 < c \<and> c < n \<and> (c - 1) div 2 = i \<and> 0 < i \<longrightarrow> xs ! c \<le> xs ! ((i - 1) div 2)))"

section \<open>Basic facts\<close>

declare sift_up.simps [simp del] sift_down.simps [simp del] build_loop.simps [simp del] find_loop.simps [simp del]

lemma and_then_simps [simp]:
  "and_then (Returns r s) f = f r s"
  "and_then (Throws e s) f = Throws e s"
  "and_then Undefined f = Undefined"
  by (simp_all add: and_then_def)

lemma at_nat: "i < length v \<Longrightarrow> at v (int i) = Some (v ! i)"
  by (simp add: at_def)

lemma put_nat: "i < length v \<Longrightarrow> put v (int i) x = Some (v[i := x])"
  by (simp add: put_def)

lemma std_swap_nat:
  "i < length v \<Longrightarrow> j < length v \<Longrightarrow> std_swap v (int i) (int j) = Some (v[i := v ! j, j := v ! i])"
  by (simp add: std_swap_def at_nat)

lemma parent_nat: "0 < c \<Longrightarrow> parent (int c) = int ((c - 1) div 2)"
  by (cases "c = 1") (auto simp: parent_def signed_divide_int_def sgn_if zdiv_int)

lemma to_int_nat: "n < 2 ^ 31 \<Longrightarrow> to_int n = int n"
  by (simp add: to_int_def INT_MAX_def Let_def)

lemma left_child_nat: "i < 2 ^ 30 \<Longrightarrow> left_child (int i) = Some (int (2 * i + 1))"
  by (simp add: left_child_def in_int_def INT_MAX_def INT_MIN_def)

lemma right_child_nat: "i + 1 < 2 ^ 30 \<Longrightarrow> right_child (int i) = Some (int (2 * i + 2))"
  by (simp add: right_child_def in_int_def INT_MAX_def INT_MIN_def)

lemma child_cases: "0 < c \<Longrightarrow> ((c - 1) div 2 = i) = (c = 2 * i + 1 \<or> c = 2 * i + 2)" for c i :: nat
  by arith

lemma max_heap_iff: "max_heap h = heap_upto (m_size h) (m_heap h)"
  unfolding max_heap_def heap_upto_def
proof
  assume a: "\<forall>i\<in>{0..<m_size h}. \<forall>c\<in>{2 * i + 1, 2 * i + 2}. c < m_size h \<longrightarrow> m_heap h ! c \<le> m_heap h ! i"
  show "\<forall>c. 0 < c \<and> c < m_size h \<longrightarrow> m_heap h ! c \<le> m_heap h ! ((c - 1) div 2)"
  proof (intro allI impI)
    fix c assume c: "0 < c \<and> c < m_size h"
    let ?p = "(c - 1) div 2"
    from c have "?p \<in> {0..<m_size h}" by auto
    moreover from c have "c \<in> {2 * ?p + 1, 2 * ?p + 2}" using child_cases[of c ?p] by simp
    ultimately show "m_heap h ! c \<le> m_heap h ! ?p" using a c by blast
  qed
next
  assume a: "\<forall>c. 0 < c \<and> c < m_size h \<longrightarrow> m_heap h ! c \<le> m_heap h ! ((c - 1) div 2)"
  show "\<forall>i\<in>{0..<m_size h}. \<forall>c\<in>{2 * i + 1, 2 * i + 2}. c < m_size h \<longrightarrow> m_heap h ! c \<le> m_heap h ! i"
  proof (intro ballI impI)
    fix i c assume "c \<in> {2 * i + 1, 2 * i + 2}" and "c < m_size h"
    then have "0 < c" and "(c - 1) div 2 = i" by auto
    with a \<open>c < m_size h\<close> show "m_heap h ! c \<le> m_heap h ! i" by auto
  qed
qed

lemma heap_upto_root:
  assumes "heap_upto n xs" and "i < n"
  shows "xs ! i \<le> xs ! 0"
  using assms(2)
proof (induction i rule: less_induct)
  case (less i)
  show ?case
  proof (cases "i = 0")
    case True then show ?thesis by simp
  next
    case False
    then have "xs ! i \<le> xs ! ((i - 1) div 2)"
      using assms(1) less.prems by (simp add: heap_upto_def)
    moreover have "xs ! ((i - 1) div 2) \<le> xs ! 0"
      using False less.prems by (intro less.IH) auto
    ultimately show ?thesis by simp
  qed
qed

section \<open>One step of sifting keeps the relaxed invariant\<close>

lemma except_up_done:
  assumes "heap_except_up n xs i" and "i = 0 \<or> xs ! i \<le> xs ! ((i - 1) div 2)"
  shows "heap_upto n xs"
  unfolding heap_upto_def
proof (intro allI impI)
  fix c assume c: "0 < c \<and> c < n"
  show "xs ! c \<le> xs ! ((c - 1) div 2)"
  proof (cases "c = i")
    case True with assms(2) c show ?thesis by auto
  next
    case False with assms(1) c show ?thesis by (simp add: heap_except_up_def)
  qed
qed

lemma except_up_step:
  assumes ex: "heap_except_up n xs i" and i: "0 < i" "i < n" "n \<le> length xs"
    and p: "p = (i - 1) div 2" and gt: "xs ! p < xs ! i"
  shows "heap_except_up n (xs[p := xs ! i, i := xs ! p]) p"
proof -
  let ?ys = "xs[p := xs ! i, i := xs ! p]"
  from i p have pi: "p < i" "p < length xs" "i < length xs" by auto
  have ys_i: "?ys ! i = xs ! p" and ys_p: "?ys ! p = xs ! i"
    using pi by simp_all
  have ys_o: "?ys ! k = xs ! k" if "k \<noteq> i" "k \<noteq> p" for k
    using that by simp
  from ex have e1: "\<And>c. 0 < c \<Longrightarrow> c < n \<Longrightarrow> c \<noteq> i \<Longrightarrow> xs ! c \<le> xs ! ((c - 1) div 2)"
    and e2: "\<And>c. 0 < c \<Longrightarrow> c < n \<Longrightarrow> (c - 1) div 2 = i \<Longrightarrow> xs ! c \<le> xs ! p"
    using i p by (auto simp: heap_except_up_def)
  have a: "?ys ! c \<le> ?ys ! ((c - 1) div 2)" if c: "0 < c" "c < n" "c \<noteq> p" for c
  proof -
    let ?q = "(c - 1) div 2"
    consider "c = i" | "c \<noteq> i" "?q = p" | "c \<noteq> i" "?q = i" | "c \<noteq> i" "?q \<noteq> p" "?q \<noteq> i"
      by blast
    then show ?thesis
    proof cases
      case 1
      then show ?thesis using p ys_i ys_p gt by simp
    next
      case 2
      then have "xs ! c \<le> xs ! p" using e1[of c] c by simp
      then show ?thesis using 2 c ys_o[of c] ys_p gt by simp
    next
      case 3
      then have "xs ! c \<le> xs ! p" using e2[of c] c by simp
      then show ?thesis using 3 c ys_o[of c] ys_i by simp
    next
      case 4
      then show ?thesis using e1[of c] c ys_o[of c] ys_o[of ?q] by simp
    qed
  qed
  have b: "?ys ! c \<le> ?ys ! ((p - 1) div 2)" if c: "0 < c" "c < n" "(c - 1) div 2 = p" "0 < p" for c
  proof -
    let ?g = "(p - 1) div 2"
    from c pi have g: "?g \<noteq> p" "?g \<noteq> i" by auto
    have pg: "xs ! p \<le> xs ! ?g" using e1[of p] c pi i by simp
    show ?thesis
    proof (cases "c = i")
      case True
      then show ?thesis using pg ys_i ys_o[of ?g] g by simp
    next
      case False
      then have "xs ! c \<le> xs ! p" using e1[of c] c by simp
      moreover have "c \<noteq> p" using c by auto
      ultimately show ?thesis using pg False ys_o[of c] ys_o[of ?g] g by simp
    qed
  qed
  show ?thesis
    unfolding heap_except_up_def using a b by blast
qed

lemma except_down_done:
  assumes "heap_except_down n xs i"
    and "\<And>c. 0 < c \<Longrightarrow> c < n \<Longrightarrow> (c - 1) div 2 = i \<Longrightarrow> xs ! c \<le> xs ! i"
  shows "heap_upto n xs"
  unfolding heap_upto_def
proof (intro allI impI)
  fix c assume c: "0 < c \<and> c < n"
  show "xs ! c \<le> xs ! ((c - 1) div 2)"
  proof (cases "(c - 1) div 2 = i")
    case True with assms(2)[of c] c show ?thesis by auto
  next
    case False with assms(1) c show ?thesis by (simp add: heap_except_down_def)
  qed
qed

lemma except_down_step:
  assumes ex: "heap_except_down n xs i" and m: "0 < m" "m < n" "n \<le> length xs"
    and p: "(m - 1) div 2 = i" and gt: "xs ! i < xs ! m"
    and mx: "\<And>c. 0 < c \<Longrightarrow> c < n \<Longrightarrow> (c - 1) div 2 = i \<Longrightarrow> xs ! c \<le> xs ! m"
  shows "heap_except_down n (xs[i := xs ! m, m := xs ! i]) m"
proof -
  let ?ys = "xs[i := xs ! m, m := xs ! i]"
  from m p have im: "i < m" "i < length xs" "m < length xs" by auto
  have ys_i: "?ys ! i = xs ! m" and ys_m: "?ys ! m = xs ! i"
    using im by simp_all
  have ys_o: "?ys ! k = xs ! k" if "k \<noteq> i" "k \<noteq> m" for k
    using that by simp
  from ex have e1: "\<And>c. 0 < c \<Longrightarrow> c < n \<Longrightarrow> (c - 1) div 2 \<noteq> i \<Longrightarrow> xs ! c \<le> xs ! ((c - 1) div 2)"
    and e2: "\<And>c. 0 < c \<Longrightarrow> c < n \<Longrightarrow> (c - 1) div 2 = i \<Longrightarrow> 0 < i \<Longrightarrow> xs ! c \<le> xs ! ((i - 1) div 2)"
    by (auto simp: heap_except_down_def)
  have a: "?ys ! c \<le> ?ys ! ((c - 1) div 2)" if c: "0 < c" "c < n" "(c - 1) div 2 \<noteq> m" for c
  proof -
    let ?q = "(c - 1) div 2"
    consider "c = m" | "c \<noteq> m" "?q = i" | "?q \<noteq> i" "c = i" | "?q \<noteq> i" "c \<noteq> i" "c \<noteq> m"
      using p by blast
    then show ?thesis
    proof cases
      case 1
      then show ?thesis using p ys_i ys_m gt by simp
    next
      case 2
      then have "xs ! c \<le> xs ! m" using mx[of c] c by simp
      moreover have "c \<noteq> i" using 2 c by auto
      ultimately show ?thesis using 2 ys_o[of c] ys_i by simp
    next
      case 3
      then have i0: "0 < i" using c by simp
      have "?q \<noteq> i" "?q \<noteq> m" using 3 c im by auto
      moreover have "xs ! m \<le> xs ! ((i - 1) div 2)" using e2[of m] m p i0 by simp
      ultimately show ?thesis using 3 ys_i ys_o[of ?q] by simp
    next
      case 4
      then show ?thesis using e1[of c] c ys_o[of c] ys_o[of ?q] by simp
    qed
  qed
  have b: "?ys ! c \<le> ?ys ! ((m - 1) div 2)" if c: "0 < c" "c < n" "(c - 1) div 2 = m" for c
  proof -
    have "c \<noteq> i" "c \<noteq> m" using c im by auto
    moreover have "xs ! c \<le> xs ! m" using e1[of c] c im by simp
    ultimately show ?thesis using p ys_o[of c] ys_i by simp
  qed
  show ?thesis
    unfolding heap_except_down_def using a b by blast
qed

lemma mset_take_swap:
  assumes "i < n" "j < n" "n \<le> length xs"
  shows "mset (take n (xs[i := xs ! j, j := xs ! i])) = mset (take n xs)"
proof -
  have "take n (xs[i := xs ! j, j := xs ! i]) = (take n xs)[i := take n xs ! j, j := take n xs ! i]"
    using assms by (simp add: take_update_swap)
  also have "mset \<dots> = mset (take n xs)"
    using mset_swap[of j "take n xs" i] assms by simp
  finally show ?thesis .
qed

section \<open>sift\_up and sift\_down restore the invariant\<close>


lemma sift_up_correct:
  assumes "i < n" and "n \<le> length (m_heap h)" and "heap_except_up n (m_heap h) i"
  shows "\<exists>ys. sift_up h (int i) = Returns () (h\<lparr>m_heap := ys\<rparr>) \<and> length ys = length (m_heap h) \<and>
               heap_upto n ys \<and> mset (take n ys) = mset (take n (m_heap h))"
  using assms
proof (induction i arbitrary: h rule: less_induct)
  case (less i)
  let ?xs = "m_heap h"
  let ?p = "(i - 1) div 2"
  show ?case
  proof (cases "0 < i \<and> ?xs ! ?p < ?xs ! i")
    case False
    have "sift_up_cond h (int i) = Some False"
    proof (cases "i = 0")
      case True then show ?thesis by (simp add: sift_up_cond_def)
    next
      case nz: False
      then have "?p < length ?xs" "i < length ?xs" using less.prems by auto
      then show ?thesis using nz False by (simp add: sift_up_cond_def parent_nat at_nat)
    qed
    then have "sift_up h (int i) = Returns () (h\<lparr>m_heap := ?xs\<rparr>)"
      by (simp add: sift_up.simps[of h "int i"])
    moreover have "heap_upto n ?xs"
      using less.prems(3) False by (intro except_up_done[of n ?xs i]) auto
    ultimately show ?thesis by blast
  next
    case True
    then have pi: "?p < i" "?p < length ?xs" "i < length ?xs" using less.prems by auto
    let ?ys = "?xs[?p := ?xs ! i, i := ?xs ! ?p]"
    let ?h = "h\<lparr>m_heap := ?ys\<rparr>"
    have "sift_up_cond h (int i) = Some True"
      using True pi by (simp add: sift_up_cond_def parent_nat at_nat)
    moreover have "std_swap ?xs (parent (int i)) (int i) = Some ?ys"
      using True pi by (simp add: parent_nat std_swap_nat)
    ultimately have step: "sift_up h (int i) = sift_up ?h (int ?p)"
      using True by (simp add: sift_up.simps[of h "int i"] parent_nat)
    have "heap_except_up n (m_heap ?h) ?p"
      using except_up_step[of n ?xs i ?p] less.prems True by simp
    moreover have "?p < n" "n \<le> length (m_heap ?h)" using pi less.prems by auto
    ultimately obtain zs where zs: "sift_up ?h (int ?p) = Returns () (?h\<lparr>m_heap := zs\<rparr>)"
      "length zs = length (m_heap ?h)" "heap_upto n zs" "mset (take n zs) = mset (take n (m_heap ?h))"
      using less.IH[of ?p ?h] pi by blast
    have "mset (take n ?ys) = mset (take n ?xs)"
      using mset_take_swap[of ?p n i ?xs] pi less.prems by simp
    with zs step show ?thesis by auto
  qed
qed

lemma child_exceeds_nat:
  assumes "m_size h = n" and "n < length (m_heap h)" and "m < length (m_heap h)" and "n < 2 ^ 31"
  shows "child_exceeds h (int c) (int m) = Some (c \<le> n \<and> m_heap h ! m < m_heap h ! c)"
  using assms by (simp add: child_exceeds_def size_heap_def at_nat to_int_nat)

lemma sift_down_unfold:
  assumes "left_child index = Some l" and "right_child index = Some r"
    and "child_exceeds h l index = Some gl"
    and "child_exceeds h r (if gl then l else index) = Some gr"
    and "m = (if gr then r else if gl then l else index)"
  shows "sift_down h index =
     (if index \<noteq> m then
        (case std_swap (m_heap h) index m of None \<Rightarrow> Undefined
         | Some v \<Rightarrow> sift_down (h\<lparr>m_heap := v\<rparr>) m)
      else Returns () h)"
  unfolding assms(5) by (subst sift_down.simps) (simp add: Let_def assms(1-4))

lemma sift_down_correct:
  assumes "i < n" and "n < length (m_heap h)" and "m_heap h ! n = m_heap h ! i"
    and "heap_except_down n (m_heap h) i" and "m_size h = n" and "n < 2 ^ 30"
  shows "\<exists>ys. sift_down h (int i) = Returns () (h\<lparr>m_heap := ys\<rparr>) \<and> length ys = length (m_heap h) \<and>
               heap_upto n ys \<and> mset (take n ys) = mset (take n (m_heap h))"
  using assms
proof (induction "n - i" arbitrary: i h rule: less_induct)
  case less
  let ?xs = "m_heap h"
  let ?l = "2 * i + 1" and ?r = "2 * i + 2"
  have lc: "left_child (int i) = Some (int ?l)" and rc: "right_child (int i) = Some (int ?r)"
    using less.prems(1,6) by (simp_all add: left_child_nat right_child_nat)
  define gl where "gl = (?l < n \<and> ?xs ! i < ?xs ! ?l)"
  define m1 where "m1 = (if gl then ?l else i)"
  define gr where "gr = (?r < n \<and> ?xs ! m1 < ?xs ! ?r)"
  define m2 where "m2 = (if gr then ?r else m1)"
  have m1: "m1 < n" "?xs ! i \<le> ?xs ! m1" using less.prems by (auto simp: m1_def gl_def)
  have "(?l \<le> n \<and> ?xs ! i < ?xs ! ?l) = gl"
    using less.prems(3) by (cases "?l = n") (auto simp: gl_def)
  moreover have "child_exceeds h (int ?l) (int i) = Some (?l \<le> n \<and> ?xs ! i < ?xs ! ?l)"
    using less.prems by (intro child_exceeds_nat) auto
  ultimately have ce1: "child_exceeds h (int ?l) (int i) = Some gl"
    by (simp only:)
  have eq1: "(if gl then int ?l else int i) = int m1"
    by (simp only: m1_def if_distrib[of int])
  have "(?r \<le> n \<and> ?xs ! m1 < ?xs ! ?r) = gr"
    using less.prems(3) m1(2) by (cases "?r = n") (auto simp: gr_def)
  moreover have "child_exceeds h (int ?r) (int m1) = Some (?r \<le> n \<and> ?xs ! m1 < ?xs ! ?r)"
    using less.prems m1 by (intro child_exceeds_nat) auto
  ultimately have ce2: "child_exceeds h (int ?r) (if gl then int ?l else int i) = Some gr"
    by (simp only: eq1)
  have eq2: "int m2 = (if gr then int ?r else if gl then int ?l else int i)"
    by (simp only: m2_def m1_def if_distrib[of int])
  have unfold: "sift_down h (int i) =
      (if int i \<noteq> int m2 then
         (case std_swap ?xs (int i) (int m2) of None \<Rightarrow> Undefined
          | Some v \<Rightarrow> sift_down (h\<lparr>m_heap := v\<rparr>) (int m2))
       else Returns () h)"
    by (rule sift_down_unfold[OF lc rc ce1 ce2 eq2])
  have top: "?xs ! c \<le> ?xs ! m2" if c: "0 < c" "c < n" "(c - 1) div 2 = i" for c
  proof -
    from c have "c = ?l \<or> c = ?r" using child_cases[of c i] by simp
    then show ?thesis using c by (auto simp: m2_def gr_def m1_def gl_def)
  qed
  show ?case
  proof (cases "m2 = i")
    case True
    then have "sift_down h (int i) = Returns () (h\<lparr>m_heap := ?xs\<rparr>)"
      using unfold by simp
    moreover have "heap_upto n ?xs"
      using less.prems(4) top True by (intro except_down_done[of n ?xs i]) auto
    ultimately show ?thesis by blast
  next
    case False
    then have m2: "m2 = ?l \<or> m2 = ?r" "m2 < n" "?xs ! i < ?xs ! m2"
      by (auto simp: m2_def gr_def m1_def gl_def split: if_splits)
    then have par: "(m2 - 1) div 2 = i" "0 < m2" "i < m2" by auto
    let ?ys = "?xs[i := ?xs ! m2, m2 := ?xs ! i]"
    let ?h = "h\<lparr>m_heap := ?ys\<rparr>"
    have "std_swap ?xs (int i) (int m2) = Some ?ys"
      using m2 less.prems by (simp add: std_swap_nat)
    then have step: "sift_down h (int i) = sift_down ?h (int m2)"
      using unfold False by simp
    have ex: "heap_except_down n (m_heap ?h) m2"
      using except_down_step[of n ?xs i m2] less.prems m2 par top by simp
    have stale: "m_heap ?h ! n = m_heap ?h ! m2"
      using less.prems m2 par by simp
    have "\<exists>zs. sift_down ?h (int m2) = Returns () (?h\<lparr>m_heap := zs\<rparr>) \<and>
      length zs = length (m_heap ?h) \<and> heap_upto n zs \<and> mset (take n zs) = mset (take n (m_heap ?h))"
    proof (rule less.hyps[of m2 ?h])
      show "n - m2 < n - i" using m2 par by simp
      show "m2 < n" by fact
      show "n < length (m_heap ?h)" using less.prems by simp
      show "m_heap ?h ! n = m_heap ?h ! m2" by (rule stale)
      show "heap_except_down n (m_heap ?h) m2" by (rule ex)
      show "m_size ?h = n" using less.prems by simp
      show "n < 2 ^ 30" by fact
    qed
    then obtain zs where zs: "sift_down ?h (int m2) = Returns () (?h\<lparr>m_heap := zs\<rparr>)"
      "length zs = length (m_heap ?h)" "heap_upto n zs" "mset (take n zs) = mset (take n (m_heap ?h))"
      by blast
    have "mset (take n ?ys) = mset (take n ?xs)"
      using mset_take_swap[of i n m2 ?xs] m2 less.prems by simp
    with zs step show ?thesis by auto
  qed
qed

section \<open>insert and extract\_top on a well-formed max-heap\<close>

lemma sift_down_leaf:
  assumes "left_child index = Some l" and "right_child index = Some r"
    and "to_int (m_size h) < l" and "l < r"
  shows "sift_down h index = Returns () h"
proof -
  have "child_exceeds h l index = Some False"
    using assms by (simp add: child_exceeds_def size_heap_def)
  moreover have "child_exceeds h r (if False then l else index) = Some False"
    using assms by (simp add: child_exceeds_def size_heap_def)
  ultimately show ?thesis
    using sift_down_unfold[OF assms(1,2), of h False False index] by simp
qed

lemma live_root:
  assumes "max_heap h" and "0 < m_size h" and "m_size h \<le> length (m_heap h)"
  shows "m_heap h ! 0 \<in># live h" and "\<forall>x \<in># live h. x \<le> m_heap h ! 0"
proof -
  let ?t = "take (m_size h) (m_heap h)"
  have len: "length ?t = m_size h" using assms(3) by simp
  have "?t ! 0 \<in> set ?t" using assms(2) len by (intro nth_mem) simp
  then show "m_heap h ! 0 \<in># live h" using assms(2) by (simp add: live_def)
  show "\<forall>x \<in># live h. x \<le> m_heap h ! 0"
  proof
    fix x assume "x \<in># live h"
    then have "x \<in> set ?t" by (simp add: live_def)
    then obtain i where "i < m_size h" "?t ! i = x"
      using len by (metis in_set_conv_nth)
    then show "x \<le> m_heap h ! 0"
      using heap_upto_root[of "m_size h" "m_heap h" i] assms(1) by (simp add: max_heap_iff)
  qed
qed

lemma insert_heap_correct:
  assumes wf: "well_formed h" and inv: "max_heap h" and room: "m_size h < m_sizeMax h"
    and small: "m_sizeMax h < 2 ^ 30"
  shows "\<exists>h'. insert_heap h x = Returns () h' \<and> well_formed h' \<and> max_heap h' \<and>
           m_size h' = m_size h + 1 \<and> m_sizeMax h' = m_sizeMax h \<and> live h' = live h + {#x#}"
proof -
  let ?n = "m_size h" and ?xs = "m_heap h"
  let ?ys = "?xs[?n := x]"
  let ?h1 = "h\<lparr>m_size := ?n + 1, m_heap := ?ys\<rparr>"
  from wf room have len: "?n < length ?xs" by (simp add: well_formed_def)
  have "to_int ?n = int ?n"
    using room small by (intro to_int_nat) simp
  then have call: "insert_heap h x = sift_up ?h1 (int ?n)"
    using room len by (simp add: insert_heap_def full_def size_heap_def Let_def put_def)
  have "heap_except_up (?n + 1) ?ys ?n"
    unfolding heap_except_up_def
  proof (intro conjI allI impI)
    fix c assume c: "0 < c \<and> c < ?n + 1 \<and> c \<noteq> ?n"
    then have "(c - 1) div 2 \<noteq> ?n" by auto
    then show "?ys ! c \<le> ?ys ! ((c - 1) div 2)"
      using c inv by (simp add: max_heap_iff heap_upto_def)
  next
    fix c assume "0 < c \<and> c < ?n + 1 \<and> (c - 1) div 2 = ?n \<and> 0 < ?n"
    then have False by auto
    then show "?ys ! c \<le> ?ys ! ((?n - 1) div 2)" ..
  qed
  then obtain zs where zs: "sift_up ?h1 (int ?n) = Returns () (?h1\<lparr>m_heap := zs\<rparr>)"
    "length zs = length ?ys" "heap_upto (?n + 1) zs" "mset (take (?n + 1) zs) = mset (take (?n + 1) ?ys)"
    using sift_up_correct[of ?n "?n + 1" ?h1] len by auto
  have "take (?n + 1) ?ys = take ?n ?xs @ [x]"
    using len by (simp add: take_Suc_conv_app_nth)
  then have "mset (take (?n + 1) zs) = mset (take ?n ?xs) + {#x#}"
    using zs(4) by simp
  with zs call wf room show ?thesis
    by (simp add: well_formed_def max_heap_iff live_def)
qed

lemma extract_top_correct:
  assumes wf: "well_formed h" and inv: "max_heap h" and ne: "0 < m_size h"
    and small: "m_sizeMax h < 2 ^ 30"
  shows "\<exists>h'. extract_top h = Returns (m_heap h ! 0) h' \<and> well_formed h' \<and> max_heap h' \<and>
           m_size h' = m_size h - 1 \<and> m_sizeMax h' = m_sizeMax h \<and>
           live h' = live h - {#m_heap h ! 0#}"
proof -
  let ?n = "m_size h" and ?xs = "m_heap h"
  let ?k = "?n - 1"
  let ?ys = "?xs[0 := ?xs ! ?k]"
  let ?h1 = "h\<lparr>m_heap := ?ys, m_size := ?k\<rparr>"
  from wf ne have len: "?n \<le> length ?xs" "0 < length ?xs" "?k < length ?xs"
    by (auto simp: well_formed_def)
  have "nat (int ?n - 1) = ?k" using ne by simp
  then have "at ?xs (int (size_heap h) - 1) = Some (?xs ! ?k)"
    using ne len by (simp add: at_def size_heap_def)
  moreover have "at ?xs 0 = Some (?xs ! 0)" and "put ?xs 0 (?xs ! ?k) = Some ?ys"
    using len by (simp_all add: at_def put_def)
  ultimately have call: "extract_top h = and_then (sift_down ?h1 0) (\<lambda>u h'. Returns (?xs ! 0) h')"
    by (simp add: extract_top_def)
  have tk: "take ?n ?xs = take ?k ?xs @ [?xs ! ?k]"
    using ne len take_Suc_conv_app_nth[of ?k ?xs] by simp
  show ?thesis
  proof (cases "?k = 0")
    case True
    then have "sift_down ?h1 0 = Returns () ?h1"
      by (intro sift_down_leaf[of 0 1 2])
        (simp_all add: left_child_def right_child_def in_int_def INT_MAX_def INT_MIN_def to_int_def)
    with call True tk wf show ?thesis
      by (simp add: well_formed_def max_heap_def live_def)
  next
    case False
    have "heap_except_down ?k ?ys 0"
      unfolding heap_except_down_def
    proof (intro conjI allI impI)
      fix c assume c: "0 < c \<and> c < ?k \<and> (c - 1) div 2 \<noteq> 0"
      then have "c < ?n" and "0 < c" and "c \<noteq> 0" and "(c - 1) div 2 \<noteq> 0" by auto
      moreover from this have "?xs ! c \<le> ?xs ! ((c - 1) div 2)"
        using inv by (simp add: max_heap_iff heap_upto_def)
      ultimately show "?ys ! c \<le> ?ys ! ((c - 1) div 2)"
        by (simp del: One_nat_def)
    qed simp
    moreover have "m_heap ?h1 ! ?k = m_heap ?h1 ! 0"
      using False len by simp
    ultimately obtain zs where zs: "sift_down ?h1 (int 0) = Returns () (?h1\<lparr>m_heap := zs\<rparr>)"
      "length zs = length ?ys" "heap_upto ?k zs" "mset (take ?k zs) = mset (take ?k ?ys)"
      using sift_down_correct[of 0 ?k ?h1] False len wf small by (auto simp: well_formed_def)
    have "take ?k ?ys = (take ?k ?xs)[0 := ?xs ! ?k]"
      by (simp add: take_update_swap)
    moreover have "take ?k ?xs ! 0 = ?xs ! 0" using False by simp
    ultimately have upd: "mset (take ?k ?ys) = add_mset (?xs ! ?k) (mset (take ?k ?xs) - {#?xs ! 0#})"
      using False len mset_update[of 0 "take ?k ?xs" "?xs ! ?k"] by simp
    have "take ?k ?xs ! 0 \<in> set (take ?k ?xs)"
      using False len by (intro nth_mem) simp
    then have "?xs ! 0 \<in># mset (take ?k ?xs)"
      using False by simp
    then obtain M where "mset (take ?k ?xs) = add_mset (?xs ! 0) M"
      by (blast dest: multi_member_split)
    with upd have "mset (take ?k ?ys) = mset (take ?k ?xs) + {#?xs ! ?k#} - {#?xs ! 0#}"
      by simp
    then have "mset (take ?k zs) = mset (take ?n ?xs) - {#?xs ! 0#}"
      using zs(4) tk by simp
    with zs call wf show ?thesis
      by (auto simp: well_formed_def max_heap_iff live_def)
  qed
qed

section \<open>No operation but insert throws\<close>

lemma sift_up_no_throw: "sift_up h i \<noteq> Throws e s"
proof (induction h i rule: sift_up.induct)
  case (1 h index)
  then show ?case
    by (subst sift_up.simps) (auto split: option.splits)
qed

lemma sift_down_no_throw: "sift_down h i \<noteq> Throws e s"
proof (induction h i rule: sift_down.induct)
  case (1 h index)
  show ?case
  proof
    assume thr: "sift_down h index = Throws e s"
    then obtain l r gl gr where
      l: "left_child index = Some l" and r: "right_child index = Some r" and
      gl: "child_exceeds h l index = Some gl" and
      gr: "child_exceeds h r (if gl then l else index) = Some gr"
      by (subst (asm) sift_down.simps) (auto simp: Let_def split: option.splits)
    define m where "m = (if gr then r else if gl then l else index)"
    note unf = sift_down_unfold[OF l r gl gr m_def]
    show False
    proof (cases "index = m")
      case True
      with thr unf show ?thesis by simp
    next
      case False
      with thr unf obtain v where v: "std_swap (m_heap h) index m = Some v"
        and res: "sift_down (h\<lparr>m_heap := v\<rparr>) m = Throws e s"
        by (auto split: option.splits)
      with "1.IH"[OF l r gl refl gr refl] False show ?thesis
        unfolding m_def by simp
    qed
  qed
qed

lemma build_loop_no_throw: "build_loop h i \<noteq> Throws e s"
proof (induction h i rule: build_loop.induct)
  case (1 h i)
  then show ?case
    by (subst build_loop.simps) (auto split: outcome.splits simp: sift_down_no_throw)
qed

lemma find_loop_no_throw: "find_loop h v k \<noteq> Throws e s"
proof (induction h v k rule: find_loop.induct)
  case (1 h v k)
  then show ?case
    by (subst find_loop.simps) (auto split: option.splits)
qed

lemma extract_top_no_throw: "extract_top h \<noteq> Throws e s"
  by (auto simp: extract_top_def and_then_def sift_down_no_throw split: option.splits outcome.splits)

lemma remove_heap_no_throw: "remove_heap tmax h index \<noteq> Throws e s"
  by (auto simp: remove_heap_def and_then_def sift_up_no_throw extract_top_no_throw
      split: option.splits outcome.splits)

lemma change_priority_no_throw: "change_priority h index p \<noteq> Throws e s"
  by (auto simp: change_priority_def sift_up_no_throw sift_down_no_throw split: option.splits)

lemma top_heap_no_throw: "top_heap h \<noteq> Throws e s"
  by (auto simp: top_heap_def split: option.splits)

lemma insert_heap_throws_iff:
  "(insert_heap h x = Throws e s) = (m_size h = m_sizeMax h \<and> e = runtime_error ''binary_heap is full!'' \<and> s = h)"
  by (auto simp: insert_heap_def full_def size_heap_def Let_def sift_up_no_throw split: option.splits)

lemma sift_up_shape:
  "sift_up h i = Returns u h' \<Longrightarrow>
     length (m_heap h') = length (m_heap h) \<and> m_size h' = m_size h \<and> m_sizeMax h' = m_sizeMax h"
proof (induction h i rule: sift_up.induct)
  case (1 h index)
  show ?case
  proof (cases "sift_up_cond h index")
    case None
    with "1.prems" show ?thesis by (simp add: sift_up.simps[of h index])
  next
    case (Some go)
    show ?thesis
    proof (cases go)
      case False
      with Some "1.prems" show ?thesis by (simp add: sift_up.simps[of h index])
    next
      case True
      with Some "1.prems" obtain v where v: "std_swap (m_heap h) (parent index) index = Some v"
        and r: "sift_up (h\<lparr>m_heap := v\<rparr>) (parent index) = Returns u h'"
        by (simp add: sift_up.simps[of h index] split: option.splits)
      from v have "length v = length (m_heap h)"
        by (auto simp: std_swap_def split: option.splits)
      with "1.IH"[OF Some True v r] show ?thesis by simp
    qed
  qed
qed

lemma sift_down_shape:
  "sift_down h i = Returns u h' \<Longrightarrow>
     length (m_heap h') = length (m_heap h) \<and> m_size h' = m_size h \<and> m_sizeMax h' = m_sizeMax h"
proof (induction h i rule: sift_down.induct)
  case (1 h index)
  from "1.prems" obtain l r gl gr where
    l: "left_child index = Some l" and r: "right_child index = Some r" and
    gl: "child_exceeds h l index = Some gl" and
    gr: "child_exceeds h r (if gl then l else index) = Some gr"
    by (subst (asm) sift_down.simps) (auto simp: Let_def split: option.splits)
  define m where "m = (if gr then r else if gl then l else index)"
  note unf = sift_down_unfold[OF l r gl gr m_def]
  show ?case
  proof (cases "index = m")
    case True
    with "1.prems" unf show ?thesis by simp
  next
    case False
    with "1.prems" unf obtain v where v: "std_swap (m_heap h) index m = Some v"
      and res: "sift_down (h\<lparr>m_heap := v\<rparr>) m = Returns u h'"
      by (auto split: option.splits)
    from v have len: "length v = length (m_heap h)"
      by (auto simp: std_swap_def split: option.splits)
    have "length (m_heap h') = length (m_heap (h\<lparr>m_heap := v\<rparr>)) \<and> m_size h' = m_size (h\<lparr>m_heap := v\<rparr>) \<and>
       m_sizeMax h' = m_sizeMax (h\<lparr>m_heap := v\<rparr>)"
      using "1.IH"[OF l r gl refl gr refl] False v res unfolding m_def by simp
    with len show ?thesis by simp
  qed
qed

section \<open>Every call keeps the vector's length and the capacity\<close>

lemma put_length: "put v n x = Some w \<Longrightarrow> length w = length v"
  by (auto simp: put_def split: if_splits)

lemma insert_heap_shape:
  assumes "insert_heap h x = Returns u h'"
  shows "length (m_heap h') = length (m_heap h) \<and> m_sizeMax h' = m_sizeMax h"
proof -
  from assms obtain v k where v: "put (m_heap h) (int (m_size h + 1) - 1) x = Some v"
    and r: "sift_up (h\<lparr>m_size := m_size h + 1, m_heap := v\<rparr>) k = Returns u h'"
    by (auto simp: insert_heap_def Let_def size_heap_def split: if_splits option.splits)
  from sift_up_shape[OF r] put_length[OF v] show ?thesis by simp
qed

lemma extract_top_shape:
  assumes "extract_top h = Returns t h'"
  shows "length (m_heap h') = length (m_heap h) \<and> m_sizeMax h' = m_sizeMax h"
proof -
  from assms obtain l v u where v: "put (m_heap h) 0 l = Some v"
    and r: "sift_down (h\<lparr>m_heap := v, m_size := m_size h - 1\<rparr>) 0 = Returns u h'"
    by (auto simp: extract_top_def and_then_def split: option.splits outcome.splits)
  from sift_down_shape[OF r] put_length[OF v] show ?thesis by simp
qed

lemma remove_heap_shape:
  assumes "remove_heap tmax h index = Returns u h'"
  shows "length (m_heap h') = length (m_heap h) \<and> m_sizeMax h' = m_sizeMax h"
proof -
  from assms obtain v u1 h1 t where v: "put (m_heap h) index tmax = Some v"
    and r1: "sift_up (h\<lparr>m_heap := v\<rparr>) index = Returns u1 h1"
    and r2: "extract_top h1 = Returns t h'"
    by (auto simp: remove_heap_def and_then_def split: option.splits outcome.splits)
  from sift_up_shape[OF r1] extract_top_shape[OF r2] put_length[OF v] show ?thesis by simp
qed

lemma change_priority_shape:
  assumes "change_priority h index p = Returns u h'"
  shows "length (m_heap h') = length (m_heap h) \<and> m_sizeMax h' = m_sizeMax h"
proof -
  from assms obtain v where v: "put (m_heap h) index p = Some v"
    and r: "sift_up (h\<lparr>m_heap := v\<rparr>) index = Returns u h' \<or> sift_down (h\<lparr>m_heap := v\<rparr>) index = Returns u h'"
    by (auto simp: change_priority_def split: option.splits if_splits)
  from r sift_up_shape[of "h\<lparr>m_heap := v\<rparr>" index u h'] sift_down_shape[of "h\<lparr>m_heap := v\<rparr>" index u h']
    put_length[OF v] show ?thesis by auto
qed

lemma call_heap_shape:
  assumes "call_heap tmax c h = Returns out h'"
  shows "length (m_heap h') = length (m_heap h) \<and> m_sizeMax h' = m_sizeMax h"
proof (cases c)
  case (Insert x)
  with assms show ?thesis
    by (auto simp: call_heap_def and_then_def split: outcome.splits dest: insert_heap_shape)
next
  case ExtractTop
  with assms show ?thesis
    by (auto simp: call_heap_def and_then_def split: outcome.splits dest: extract_top_shape)
next
  case (Remove i)
  with assms show ?thesis
    by (auto simp: call_heap_def and_then_def split: outcome.splits dest: remove_heap_shape)
next
  case (ChangePriority i p)
  with assms show ?thesis
    by (auto simp: call_heap_def and_then_def split: outcome.splits dest: change_priority_shape)
qed

lemma calls_shape:
  "calls tmax cs h = Returns outs h' \<Longrightarrow>
     length (m_heap h') = length (m_heap h) \<and> m_sizeMax h' = m_sizeMax h"
proof (induction cs arbitrary: h outs)
  case Nil
  then show ?case by simp
next
  case (Cons c cs)
  from Cons.prems obtain o1 h1 o2 where c: "call_heap tmax c h = Returns o1 h1"
    and r: "calls tmax cs h1 = Returns o2 h'"
    by (auto split: outcome.splits)
  from Cons.IH[OF r] call_heap_shape[OF c] show ?case by simp
qed

section \<open>Claims about errors and unguarded reads\<close>

text \<open>
  Claim C9. Take a heap built by \<open>binary_heap(sizeMax)\<close> with \<open>sizeMax \<ge> 1\<close>, after
  any sequence of calls that returned, at a moment when its count is 0. Then
  \<open>top()\<close> raises nothing and reads in bounds: the vector has a slot 0, \<open>top()\<close>
  returns the content of that slot and leaves the object as it was. On the freshly
  built heap that content is the default-constructed element.
\<close>
theorem top_heap_on_empty:
  assumes "1 \<le> sizeMax"
    and "calls tmax cs (binary_heap_sized dflt sizeMax) = Returns outs h"
    and "m_size h = 0"
  shows "0 < length (m_heap h) \<and> top_heap h = Returns (m_heap h ! 0) h \<and>
         top_heap (binary_heap_sized dflt sizeMax) = Returns dflt (binary_heap_sized dflt sizeMax)"
proof -
  from calls_shape[OF assms(2)] assms(1) have "0 < length (m_heap h)"
    by (simp add: binary_heap_sized_def)
  then show ?thesis
    using assms(1) by (simp add: top_heap_def at_def binary_heap_sized_def)
qed

theorem top_heap_on_empty_witness:
  "calls 2147483647 [Insert 4, ExtractTop] (binary_heap_sized 0 2)
     = Returns [4] \<lparr>m_sizeMax = 2, m_size = 0, m_heap = [4, 0 :: int]\<rparr> \<and>
   top_heap \<lparr>m_sizeMax = 2, m_size = 0, m_heap = [4, 0 :: int]\<rparr>
     = Returns 4 \<lparr>m_sizeMax = 2, m_size = 0, m_heap = [4, 0]\<rparr> \<and>
   top_heap (binary_heap_sized (0::int) 2) = Returns 0 (binary_heap_sized 0 2)"
proof -
  have run: "calls 2147483647 [Insert 4, ExtractTop] (binary_heap_sized 0 2)
     = Returns [4] \<lparr>m_sizeMax = 2, m_size = 0, m_heap = [4, 0 :: int]\<rparr>"
    by code_simp
  from top_heap_on_empty[OF _ run] show ?thesis
    using run by simp
qed

text \<open>
  Claim C6. \<open>insert(value)\<close> throws exactly when the count equals the capacity, and
  then it throws \<open>runtime_error("binary_heap is full!")\<close> with the object unchanged
  (count, capacity and every slot). Otherwise, on a well-formed heap of fewer than
  \<open>2^30\<close> slots, it is the write of \<open>value\<close> at index count with the count
  incremented, followed by \<open>sift_up\<close> of that index; and when the heap was a
  max-heap the sifting restores the invariant: \<open>insert\<close> returns, the count is one
  more, the capacity is the same, the live multiset has gained \<open>value\<close> and the
  max-heap invariant holds again.
\<close>

theorem insert_heap_full:
  "((\<exists>e s. insert_heap h x = Throws e s) \<longleftrightarrow> m_size h = m_sizeMax h) \<and>
   (m_size h = m_sizeMax h \<longrightarrow> insert_heap h x = Throws (runtime_error ''binary_heap is full!'') h) \<and>
   (m_size h \<noteq> m_sizeMax h \<and> well_formed h \<and> m_sizeMax h < 2 ^ 30 \<longrightarrow>
      insert_heap h x =
        sift_up (h\<lparr>m_size := m_size h + 1, m_heap := (m_heap h)[m_size h := x]\<rparr>) (int (m_size h))) \<and>
   (m_size h \<noteq> m_sizeMax h \<and> well_formed h \<and> m_sizeMax h < 2 ^ 30 \<and> max_heap h \<longrightarrow>
      (\<exists>h'. insert_heap h x = Returns () h' \<and> m_size h' = m_size h + 1 \<and>
            m_sizeMax h' = m_sizeMax h \<and> well_formed h' \<and>
            live h' = live h + {#x#} \<and> max_heap h'))"
proof (intro conjI impI)
  show "(\<exists>e s. insert_heap h x = Throws e s) \<longleftrightarrow> m_size h = m_sizeMax h"
    by (simp add: insert_heap_throws_iff)
  show "insert_heap h x = Throws (runtime_error ''binary_heap is full!'') h" if "m_size h = m_sizeMax h"
    using that by (simp add: insert_heap_throws_iff)
  show "insert_heap h x =
        sift_up (h\<lparr>m_size := m_size h + 1, m_heap := (m_heap h)[m_size h := x]\<rparr>) (int (m_size h))"
    if a: "m_size h \<noteq> m_sizeMax h \<and> well_formed h \<and> m_sizeMax h < 2 ^ 30"
  proof -
    from a have lt: "m_size h < m_sizeMax h" and len: "m_size h < length (m_heap h)"
      by (auto simp: well_formed_def)
    then have "to_int (m_size h) = int (m_size h)"
      using a by (intro to_int_nat) simp
    with a len show ?thesis
      by (simp add: insert_heap_def full_def size_heap_def Let_def put_def)
  qed
  show "\<exists>h'. insert_heap h x = Returns () h' \<and> m_size h' = m_size h + 1 \<and>
            m_sizeMax h' = m_sizeMax h \<and> well_formed h' \<and>
            live h' = live h + {#x#} \<and> max_heap h'"
    if a: "m_size h \<noteq> m_sizeMax h \<and> well_formed h \<and> m_sizeMax h < 2 ^ 30 \<and> max_heap h"
  proof -
    from a have "m_size h < m_sizeMax h"
      by (auto simp: well_formed_def)
    with a show ?thesis
      using insert_heap_correct[of h x] by blast
  qed
qed

theorem insert_heap_full_witness:
  "insert_heap \<lparr>m_sizeMax = 2, m_size = 2, m_heap = [5, 3 :: int]\<rparr> 9
     = Throws (runtime_error ''binary_heap is full!'') \<lparr>m_sizeMax = 2, m_size = 2, m_heap = [5, 3]\<rparr> \<and>
   insert_heap \<lparr>m_sizeMax = 8, m_size = 5, m_heap = [9, 5, 8, 3, 4, 0, 0, 0 :: int]\<rparr> 10
     = Returns () \<lparr>m_sizeMax = 8, m_size = 6, m_heap = [10, 5, 9, 3, 4, 8, 0, 0]\<rparr> \<and>
   max_heap \<lparr>m_sizeMax = 8, m_size = 6, m_heap = [10, 5, 9, 3, 4, 8, 0, 0 :: int]\<rparr> \<and>
   live \<lparr>m_sizeMax = 8, m_size = 6, m_heap = [10, 5, 9, 3, 4, 8, 0, 0 :: int]\<rparr>
     = live \<lparr>m_sizeMax = 8, m_size = 5, m_heap = [9, 5, 8, 3, 4, 0, 0, 0 :: int]\<rparr> + {#10#}"
proof -
  let ?f = "\<lparr>m_sizeMax = 2, m_size = 2, m_heap = [5, 3 :: int]\<rparr>"
  let ?h = "\<lparr>m_sizeMax = 8, m_size = 5, m_heap = [9, 5, 8, 3, 4, 0, 0, 0 :: int]\<rparr>"
  let ?h' = "\<lparr>m_sizeMax = 8, m_size = 6, m_heap = [10, 5, 9, 3, 4, 8, 0, 0 :: int]\<rparr>"
  have run: "insert_heap ?h 10 = Returns () ?h'"
    by code_simp
  have pre: "m_size ?h \<noteq> m_sizeMax ?h \<and> well_formed ?h \<and> m_sizeMax ?h < 2 ^ 30 \<and> max_heap ?h"
    by (simp add: well_formed_def max_heap_def atLeastLessThan_nat_numeral)
  from insert_heap_full[of ?h 10] pre
  obtain h' where "insert_heap ?h 10 = Returns () h'" "live h' = live ?h + {#10#}" "max_heap h'"
    by blast
  with run have "max_heap ?h'" and "live ?h' = live ?h + {#10#}"
    by simp_all
  moreover from insert_heap_full[of ?f 9]
  have "insert_heap ?f 9 = Throws (runtime_error ''binary_heap is full!'') ?f"
    by simp
  ultimately show ?thesis
    using run by simp
qed

lemma find_loop_miss:
  assumes "m_size h \<le> length (m_heap h)" and "\<forall>j. k \<le> j \<and> j < m_size h \<longrightarrow> m_heap h ! j \<noteq> v"
  shows "find_loop h v k = Returns (- 1) h"
  using assms
proof (induction "m_size h - k" arbitrary: k rule: less_induct)
  case less
  show ?case
  proof (cases "k < m_size h")
    case False
    then show ?thesis by (simp add: find_loop.simps[of h v k] size_heap_def)
  next
    case True
    then have "at (m_heap h) (int k) = Some (m_heap h ! k)" and "m_heap h ! k \<noteq> v"
      using less.prems by (simp_all add: at_nat)
    moreover have "find_loop h v (k + 1) = Returns (- 1) h"
      using True less.prems by (intro less.hyps) auto
    ultimately show ?thesis
      using True by (simp add: find_loop.simps[of h v k] size_heap_def)
  qed
qed

lemma find_loop_hit:
  assumes "m_size h \<le> length (m_heap h)" and "k \<le> i" and "i < m_size h" and "m_heap h ! i = v"
    and "\<forall>j. k \<le> j \<and> j < i \<longrightarrow> m_heap h ! j \<noteq> v"
  shows "find_loop h v k = Returns (to_int i) h"
  using assms
proof (induction "i - k" arbitrary: k rule: less_induct)
  case less
  have rd: "at (m_heap h) (int k) = Some (m_heap h ! k)" and lt: "k < m_size h"
    using less.prems by (simp_all add: at_nat)
  then have unf: "find_loop h v k =
      (if m_heap h ! k = v then Returns (to_int k) h else find_loop h v (k + 1))"
    by (simp add: find_loop.simps[of h v k] size_heap_def)
  show ?case
  proof (cases "k = i")
    case True
    with unf less.prems show ?thesis by simp
  next
    case False
    then have "m_heap h ! k \<noteq> v" using less.prems by simp
    moreover have "find_loop h v (k + 1) = Returns (to_int i) h"
      using False less.prems by (intro less.hyps) auto
    ultimately show ?thesis
      using unf by simp
  qed
qed

text \<open>
  Claim C8. \<open>find(v)\<close> scans the live range in increasing index order: on a
  well-formed heap it returns the smallest live index holding \<open>v\<close>, and \<open>-1\<close> when no
  live slot holds \<open>v\<close>; the object is unchanged. The index is returned through the
  \<open>int\<close> return type, so it is the index itself as long as it is below \<open>2^31\<close>.
  \<open>find\<close> never throws, and on an empty heap it returns \<open>-1\<close>.
\<close>

theorem find_heap_first_match:
  "(well_formed h \<and> i < m_size h \<and> i < 2 ^ 31 \<and> m_heap h ! i = v \<and> (\<forall>j < i. m_heap h ! j \<noteq> v)
      \<longrightarrow> find_heap h v = Returns (int i) h) \<and>
   (well_formed h \<and> (\<forall>j < m_size h. m_heap h ! j \<noteq> v) \<longrightarrow> find_heap h v = Returns (- 1) h) \<and>
   (\<forall>e s. find_heap h v \<noteq> Throws e s) \<and>
   (m_size h = 0 \<longrightarrow> find_heap h v = Returns (- 1) h)"
proof (intro conjI impI allI)
  assume a: "well_formed h \<and> i < m_size h \<and> i < 2 ^ 31 \<and> m_heap h ! i = v \<and> (\<forall>j < i. m_heap h ! j \<noteq> v)"
  then have "find_loop h v 0 = Returns (to_int i) h"
    by (intro find_loop_hit) (auto simp: well_formed_def)
  moreover from a have "to_int i = int i"
    by (intro to_int_nat) simp
  ultimately show "find_heap h v = Returns (int i) h"
    by (simp add: find_heap_def)
next
  assume "well_formed h \<and> (\<forall>j < m_size h. m_heap h ! j \<noteq> v)"
  then show "find_heap h v = Returns (- 1) h"
    unfolding find_heap_def by (intro find_loop_miss) (auto simp: well_formed_def)
next
  fix e s show "find_heap h v \<noteq> Throws e s"
    by (simp add: find_heap_def find_loop_no_throw)
next
  assume "m_size h = 0"
  then show "find_heap h v = Returns (- 1) h"
    by (simp add: find_heap_def find_loop.simps[of h v 0] size_heap_def)
qed

theorem find_heap_first_match_witness:
  "find_heap \<lparr>m_sizeMax = 4, m_size = 3, m_heap = [5, 4, 4, 9 :: int]\<rparr> 4
     = Returns 1 \<lparr>m_sizeMax = 4, m_size = 3, m_heap = [5, 4, 4, 9]\<rparr> \<and>
   find_heap \<lparr>m_sizeMax = 4, m_size = 3, m_heap = [5, 4, 4, 9 :: int]\<rparr> 9
     = Returns (- 1) \<lparr>m_sizeMax = 4, m_size = 3, m_heap = [5, 4, 4, 9]\<rparr> \<and>
   find_heap \<lparr>m_sizeMax = 4, m_size = 0, m_heap = [5, 4, 4, 9 :: int]\<rparr> 5
     = Returns (- 1) \<lparr>m_sizeMax = 4, m_size = 0, m_heap = [5, 4, 4, 9]\<rparr>"
  using find_heap_first_match[of "\<lparr>m_sizeMax = 4, m_size = 3, m_heap = [5, 4, 4, 9 :: int]\<rparr>" 1 4]
    find_heap_first_match[of "\<lparr>m_sizeMax = 4, m_size = 3, m_heap = [5, 4, 4, 9 :: int]\<rparr>" 0 9]
    find_heap_first_match[of "\<lparr>m_sizeMax = 4, m_size = 0, m_heap = [5, 4, 4, 9 :: int]\<rparr>" 0 5]
  by (simp add: well_formed_def less_Suc_eq numeral_3_eq_3)

lemma call_heap_throws:
  "call_heap tmax c h = Throws e s \<Longrightarrow> e = runtime_error ''binary_heap is full!'' \<and> (\<exists>x. c = Insert x)"
  by (cases c)
     (auto simp: call_heap_def and_then_def insert_heap_throws_iff extract_top_no_throw
        remove_heap_no_throw change_priority_no_throw split: outcome.splits)

lemma calls_throws:
  "calls tmax cs h = Throws e s \<Longrightarrow> e = runtime_error ''binary_heap is full!''"
proof (induction cs arbitrary: h)
  case Nil
  then show ?case by simp
next
  case (Cons c cs)
  then show ?case
    by (auto split: outcome.splits dest: call_heap_throws)
qed

text \<open>
  Claim C10. \<open>insert\<close> is the only operation that throws. \<open>remove\<close> and
  \<open>change_priority\<close> never throw, whatever the index (negative or beyond the
  count); \<open>top\<close>, \<open>extract_top\<close>, \<open>find\<close> and the constructor from a vector never
  throw either, also on an empty heap. The one exception the code can throw is
  \<open>runtime_error("binary_heap is full!")\<close>, from \<open>insert\<close> on a full heap, so any
  sequence of calls that throws does so with that exception.
\<close>

theorem only_insert_throws:
  "remove_heap tmax h index \<noteq> Throws e s \<and>
   change_priority h index p \<noteq> Throws e s \<and>
   top_heap h \<noteq> Throws e s \<and>
   extract_top h \<noteq> Throws e s \<and>
   find_heap h v \<noteq> Throws e s \<and>
   binary_heap_from vs \<noteq> Throws e s \<and>
   (insert_heap h x = Throws e s \<longrightarrow> e = runtime_error ''binary_heap is full!'' \<and> full h) \<and>
   (calls tmax cs h = Throws e s \<longrightarrow> e = runtime_error ''binary_heap is full!'')"
  by (auto simp: remove_heap_no_throw change_priority_no_throw top_heap_no_throw extract_top_no_throw
      find_heap_def find_loop_no_throw binary_heap_from_def build_heap_def build_loop_no_throw
      insert_heap_throws_iff full_def size_heap_def dest: calls_throws)

theorem only_insert_throws_witness:
  "insert_heap \<lparr>m_sizeMax = 1, m_size = 1, m_heap = [5 :: int]\<rparr> 9
     = Throws (runtime_error ''binary_heap is full!'') \<lparr>m_sizeMax = 1, m_size = 1, m_heap = [5]\<rparr> \<and>
   full \<lparr>m_sizeMax = 1, m_size = 1, m_heap = [5 :: int]\<rparr> \<and>
   calls 2147483647 [Insert 5, Remove 0, Insert 7, Insert 9] (binary_heap_sized (0 :: int) 1)
     = Throws (runtime_error ''binary_heap is full!'') \<lparr>m_sizeMax = 1, m_size = 1, m_heap = [7]\<rparr> \<and>
   remove_heap 2147483647 \<lparr>m_sizeMax = 1, m_size = 1, m_heap = [5 :: int]\<rparr> (- 1) = Undefined \<and>
   change_priority \<lparr>m_sizeMax = 2, m_size = 1, m_heap = [5, 0 :: int]\<rparr> 1 3
     = Returns () \<lparr>m_sizeMax = 2, m_size = 1, m_heap = [5, 3]\<rparr> \<and>
   extract_top \<lparr>m_sizeMax = 1, m_size = 0, m_heap = [5 :: int]\<rparr> = Undefined"
proof -
  have a: "insert_heap \<lparr>m_sizeMax = 1, m_size = 1, m_heap = [5 :: int]\<rparr> 9
     = Throws (runtime_error ''binary_heap is full!'') \<lparr>m_sizeMax = 1, m_size = 1, m_heap = [5]\<rparr>"
    by code_simp
  have b: "calls 2147483647 [Insert 5, Remove 0, Insert 7, Insert 9] (binary_heap_sized (0 :: int) 1)
     = Throws (runtime_error ''binary_heap is full!'') \<lparr>m_sizeMax = 1, m_size = 1, m_heap = [7]\<rparr>"
    by code_simp
  have c: "remove_heap 2147483647 \<lparr>m_sizeMax = 1, m_size = 1, m_heap = [5 :: int]\<rparr> (- 1) = Undefined"
    by code_simp
  have d: "change_priority \<lparr>m_sizeMax = 2, m_size = 1, m_heap = [5, 0 :: int]\<rparr> 1 3
     = Returns () \<lparr>m_sizeMax = 2, m_size = 1, m_heap = [5, 3]\<rparr>"
    by code_simp
  have e: "extract_top \<lparr>m_sizeMax = 1, m_size = 0, m_heap = [5 :: int]\<rparr> = Undefined"
    by code_simp
  from only_insert_throws[of 2147483647 "\<lparr>m_sizeMax = 1, m_size = 1, m_heap = [5 :: int]\<rparr>" 0
      "runtime_error ''binary_heap is full!''" "\<lparr>m_sizeMax = 1, m_size = 1, m_heap = [5 :: int]\<rparr>" 0 0 "[]" 9 "[]"]
  have "full \<lparr>m_sizeMax = 1, m_size = 1, m_heap = [5 :: int]\<rparr>"
    using a by simp
  with a b c d e show ?thesis by simp
qed

section \<open>Where sift\_down reads the slot at index count\<close>

text \<open>
  Claim C3 says that \<open>sift_down\<close> compares only against children whose index is
  strictly below the count. The source tests \<open>child <= size()\<close>. With storage
  \<open>[1, 3]\<close> and count 1, \<open>sift_down(0)\<close> reads slot 1, which is not live, finds it
  greater and swaps it into the live range. With count equal to the capacity the
  same read leaves the vector.
\<close>

theorem sift_down_reads_slot_at_count:
  "sift_down \<lparr>m_sizeMax = 2, m_size = 1, m_heap = [1, 3 :: int]\<rparr> 0
     = Returns () \<lparr>m_sizeMax = 2, m_size = 1, m_heap = [3, 1]\<rparr> \<and>
   sift_down \<lparr>m_sizeMax = 1, m_size = 1, m_heap = [5 :: int]\<rparr> 0 = Undefined"
  by code_simp

text \<open>
  Claim C4 says that \<open>change_priority\<close> replaces exactly the element at the index.
  After \<open>insert(5); insert(3); extract_top()\<close> on a heap of capacity 2 the storage
  is \<open>[3, 3]\<close> with count 1, a max-heap. \<open>change_priority(0, 1)\<close> then leaves the
  live multiset \<open>{3}\<close>, not \<open>{1}\<close>: \<open>sift_down\<close> swapped the new value with the
  dead slot 1. On a full heap of capacity 1, \<open>change_priority(0, 3)\<close> reads past
  the vector.
\<close>

theorem change_priority_swaps_dead_slot:
  "calls 2147483647 [Insert 5, Insert 3, ExtractTop] (binary_heap_sized (0 :: int) 2)
     = Returns [5] \<lparr>m_sizeMax = 2, m_size = 1, m_heap = [3, 3]\<rparr> \<and>
   max_heap \<lparr>m_sizeMax = 2, m_size = 1, m_heap = [3, 3 :: int]\<rparr> \<and>
   change_priority \<lparr>m_sizeMax = 2, m_size = 1, m_heap = [3, 3 :: int]\<rparr> 0 1
     = Returns () \<lparr>m_sizeMax = 2, m_size = 1, m_heap = [3, 1]\<rparr> \<and>
   live \<lparr>m_sizeMax = 2, m_size = 1, m_heap = [3, 1 :: int]\<rparr> = {#3#} \<and>
   calls 2147483647 [Insert 5, ChangePriority 0 3] (binary_heap_sized (0 :: int) 1) = Undefined"
proof -
  have "calls 2147483647 [Insert 5, Insert 3, ExtractTop] (binary_heap_sized (0 :: int) 2)
     = Returns [5] \<lparr>m_sizeMax = 2, m_size = 1, m_heap = [3, 3]\<rparr>"
    by code_simp
  moreover have "change_priority \<lparr>m_sizeMax = 2, m_size = 1, m_heap = [3, 3 :: int]\<rparr> 0 1
     = Returns () \<lparr>m_sizeMax = 2, m_size = 1, m_heap = [3, 1]\<rparr>"
    by code_simp
  moreover have "calls 2147483647 [Insert 5, ChangePriority 0 3] (binary_heap_sized (0 :: int) 1) = Undefined"
    by code_simp
  ultimately show ?thesis
    by (simp add: max_heap_def live_def)
qed

theorem change_priority_swaps_dead_slot_witness:
  "max_heap \<lparr>m_sizeMax = 2, m_size = 1, m_heap = [3, 3 :: int]\<rparr> \<and>
   live \<lparr>m_sizeMax = 2, m_size = 1, m_heap = [3, 1 :: int]\<rparr> \<noteq> {#1#}"
  using change_priority_swaps_dead_slot by simp

text \<open>
  Claim C1 says that the max-heap invariant holds after every sequence of calls
  that stays within capacity and within the live range. The eight calls below do
  stay within them, all return, and leave storage \<open>[1, 6, 0, 0]\<close> with count 3:
  the root 1 is below its left child 6.
\<close>

theorem invariant_broken_by_calls:
  "calls 2147483647
     [Insert 9, Insert 8, Insert 1, Insert 6, ExtractTop, ExtractTop, Insert 0, ChangePriority 0 0]
     (binary_heap_sized (0 :: int) 4)
     = Returns [9, 8] \<lparr>m_sizeMax = 4, m_size = 3, m_heap = [1, 6, 0, 0]\<rparr> \<and>
   \<not> max_heap \<lparr>m_sizeMax = 4, m_size = 3, m_heap = [1, 6, 0, 0 :: int]\<rparr>"
proof -
  have "calls 2147483647
     [Insert 9, Insert 8, Insert 1, Insert 6, ExtractTop, ExtractTop, Insert 0, ChangePriority 0 0]
     (binary_heap_sized (0 :: int) 4)
     = Returns [9, 8] \<lparr>m_sizeMax = 4, m_size = 3, m_heap = [1, 6, 0, 0]\<rparr>"
    by code_simp
  then show ?thesis
    by (simp add: max_heap_def)
qed

theorem invariant_broken_by_calls_witness:
  "(2 * 0 + 1 :: nat) < 3 \<and> [1, 6, 0, 0 :: int] ! 0 < [1, 6, 0, 0] ! (2 * 0 + 1) \<and>
   \<not> max_heap \<lparr>m_sizeMax = 4, m_size = 3, m_heap = [1, 6, 0, 0 :: int]\<rparr>"
  using invariant_broken_by_calls by simp

text \<open>
  Claim C7 says that the constructor from a vector touches no index outside
  \<open>[0, len(v))\<close> and yields a heap whose top is 5 for \<open>[3, 1, 4, 1, 5]\<close>. The loop of
  \<open>build_heap\<close> starts at \<open>i = 2\<close>, whose left child is 5, and \<open>5 <= size()\<close> lets
  \<open>sift_down\<close> read \<open>_heap[5]\<close>, one past the end of the vector.
\<close>

theorem binary_heap_from_reads_past_end:
  "binary_heap_from [3, 1, 4, 1, 5 :: int] = Undefined"
  by code_simp

text \<open>The same happens for every non-empty vector of fewer than \<open>2^30\<close> elements:
  an odd length reads past the end at the first index of the loop, an even length
  at the second.\<close>

lemma sift_down_undefined_left:
  "left_child index = Some l \<Longrightarrow> right_child index = Some r \<Longrightarrow>
   child_exceeds h l index = None \<Longrightarrow> sift_down h index = Undefined"
  by (subst sift_down.simps) (simp add: Let_def)

lemma sift_down_undefined_right:
  "left_child index = Some l \<Longrightarrow> right_child index = Some r \<Longrightarrow>
   child_exceeds h l index = Some gl \<Longrightarrow>
   child_exceeds h r (if gl then l else index) = None \<Longrightarrow>
   sift_down h index = Undefined"
  by (subst sift_down.simps) (simp add: Let_def)

lemma child_exceeds_read:
  assumes "c \<le> m_size h" and "c < length (m_heap h)" and "m < length (m_heap h)"
    and "m_size h < 2 ^ 31"
  shows "child_exceeds h (int c) (int m) = Some (m_heap h ! m < m_heap h ! c)"
  using assms by (simp add: child_exceeds_def size_heap_def at_nat to_int_nat)

lemma child_exceeds_past:
  assumes "m_size h = length (m_heap h)" and "m_size h < 2 ^ 31"
  shows "child_exceeds h (int (m_size h)) m = None"
  using assms by (simp add: child_exceeds_def size_heap_def at_def to_int_nat)

lemma build_loop_undefined:
  "0 \<le> i \<Longrightarrow> sift_down h i = Undefined \<Longrightarrow> build_loop h i = Undefined"
  by (subst build_loop.simps) simp

lemma build_loop_next:
  "0 \<le> i \<Longrightarrow> sift_down h i = Returns u h' \<Longrightarrow> build_loop h i = build_loop h' (i - 1)"
  by (subst build_loop.simps) simp

lemma build_heap_nonempty_undefined:
  assumes "v \<noteq> []" and small: "length v < 2 ^ 30"
  shows "build_heap v = Undefined"
proof -
  let ?n = "length v"
  let ?h = "\<lparr>m_sizeMax = ?n, m_size = ?n, m_heap = v\<rparr>"
  have cast: "to_int ?n = int ?n"
    using small by (intro to_int_nat) simp
  have start: "to_int ?n sdiv 2 = int (?n div 2)"
    by (simp add: cast signed_divide_int_def sgn_if zdiv_int)
  have unf: "build_heap v = build_loop ?h (int (?n div 2))"
    by (simp add: build_heap_def Let_def size_heap_def start)
  have past: "child_exceeds ?h (int ?n) m = None" for m
    using child_exceeds_past[of ?h m] small by simp
  show ?thesis
  proof (cases "even ?n")
    case False
    then have "2 * (?n div 2) + 1 = ?n" by presburger
    then have "left_child (int (?n div 2)) = Some (int ?n)"
      using left_child_nat[of "?n div 2"] small by simp
    moreover have "right_child (int (?n div 2)) = Some (int (2 * (?n div 2) + 2))"
      using small by (intro right_child_nat) simp
    ultimately have "sift_down ?h (int (?n div 2)) = Undefined"
      using past by (rule sift_down_undefined_left)
    then have "build_loop ?h (int (?n div 2)) = Undefined"
      by (intro build_loop_undefined) simp_all
    with unf show ?thesis by simp
  next
    case True
    moreover from assms have "0 < ?n" by simp
    ultimately have n2: "2 \<le> ?n" by presburger
    let ?i = "?n div 2 - 1"
    have i: "int (?n div 2) - 1 = int ?i" using n2 by simp
    have "2 * ?i + 1 = ?n - 1" and "2 * ?i + 2 = ?n" and "2 * (?n div 2) = ?n"
      using True n2 by presburger+
    then have l: "left_child (int ?i) = Some (int (?n - 1))" and r: "right_child (int ?i) = Some (int ?n)"
      and l0: "left_child (int (?n div 2)) = Some (int (?n + 1))"
      and r0: "right_child (int (?n div 2)) = Some (int (?n + 2))"
      using left_child_nat[of ?i] right_child_nat[of ?i] left_child_nat[of "?n div 2"]
        right_child_nat[of "?n div 2"] small by simp_all
    have first: "sift_down ?h (int (?n div 2)) = Returns () ?h"
      using l0 r0 by (rule sift_down_leaf) (simp_all add: cast)
    have "?i < ?n" "?n - 1 < ?n" using n2 by auto
    then have "child_exceeds ?h (int (?n - 1)) (int ?i) = Some (m_heap ?h ! ?i < m_heap ?h ! (?n - 1))"
      using small by (intro child_exceeds_read) simp_all
    with l r have "sift_down ?h (int ?i) = Undefined"
      using past by (rule sift_down_undefined_right)
    then have "build_loop ?h (int ?i) = Undefined"
      by (intro build_loop_undefined) simp_all
    moreover have "build_loop ?h (int (?n div 2)) = build_loop ?h (int (?n div 2) - 1)"
      using first by (intro build_loop_next) simp_all
    ultimately show ?thesis
      using unf by (simp only: i)
  qed
qed

section \<open>Inserting then extracting sorts\<close>

lemma calls_append:
  "calls tmax (cs @ ds) h =
     (case calls tmax cs h of
        Returns o1 h1 \<Rightarrow>
          (case calls tmax ds h1 of
             Returns o2 h2 \<Rightarrow> Returns (o1 @ o2) h2
           | Throws e s \<Rightarrow> Throws e s
           | Undefined \<Rightarrow> Undefined)
      | Throws e s \<Rightarrow> Throws e s
      | Undefined \<Rightarrow> Undefined)"
  by (induction cs arbitrary: h) (auto split: outcome.splits)

lemma calls_inserts:
  assumes "well_formed h" and "max_heap h" and "m_size h + length vs \<le> m_sizeMax h"
    and "m_sizeMax h < 2 ^ 30"
  shows "\<exists>h'. calls tmax (map Insert vs) h = Returns [] h' \<and> well_formed h' \<and> max_heap h' \<and>
           m_size h' = m_size h + length vs \<and> m_sizeMax h' = m_sizeMax h \<and>
           live h' = live h + mset vs"
  using assms
proof (induction vs arbitrary: h)
  case Nil
  then show ?case by simp
next
  case (Cons x vs)
  then have "m_size h < m_sizeMax h" by simp
  with Cons.prems obtain h1 where h1: "insert_heap h x = Returns () h1" "well_formed h1" "max_heap h1"
    "m_size h1 = m_size h + 1" "m_sizeMax h1 = m_sizeMax h" "live h1 = live h + {#x#}"
    using insert_heap_correct[of h x] by blast
  then have "m_size h1 + length vs \<le> m_sizeMax h1" and "m_sizeMax h1 < 2 ^ 30"
    using Cons.prems by simp_all
  with h1 obtain h' where h': "calls tmax (map Insert vs) h1 = Returns [] h'" "well_formed h'" "max_heap h'"
    "m_size h' = m_size h1 + length vs" "m_sizeMax h' = m_sizeMax h1" "live h' = live h1 + mset vs"
    using Cons.IH[of h1] by blast
  have "calls tmax (map Insert (x # vs)) h = Returns [] h'"
    using h1(1) h'(1) by (simp add: call_heap_def)
  with h1 h' show ?case by simp
qed

lemma calls_extracts:
  assumes "well_formed h" and "max_heap h" and "m_size h = k" and "m_sizeMax h < 2 ^ 30"
  shows "\<exists>outs h'. calls tmax (replicate k ExtractTop) h = Returns outs h' \<and> m_size h' = 0 \<and>
           mset outs = live h \<and> sorted_wrt (\<lambda>a b. b \<le> a) outs"
  using assms
proof (induction k arbitrary: h)
  case 0
  then show ?case by (simp add: live_def)
next
  case (Suc k)
  let ?t = "m_heap h ! 0"
  from Suc.prems have pos: "0 < m_size h" and len: "m_size h \<le> length (m_heap h)"
    by (simp_all add: well_formed_def)
  with Suc.prems obtain h1 where h1: "extract_top h = Returns ?t h1" "well_formed h1" "max_heap h1"
    "m_size h1 = m_size h - 1" "m_sizeMax h1 = m_sizeMax h" "live h1 = live h - {#?t#}"
    using extract_top_correct[of h] by blast
  then have "m_size h1 = k" and "m_sizeMax h1 < 2 ^ 30" using Suc.prems by simp_all
  with h1 obtain outs h' where r: "calls tmax (replicate k ExtractTop) h1 = Returns outs h'"
    "m_size h' = 0" "mset outs = live h1" "sorted_wrt (\<lambda>a b. b \<le> a) outs"
    using Suc.IH[of h1] by blast
  have top_in: "?t \<in># live h" and top_max: "\<forall>x \<in># live h. x \<le> ?t"
    using live_root[of h] Suc.prems(2) pos len by simp_all
  have run: "calls tmax (replicate (Suc k) ExtractTop) h = Returns (?t # outs) h'"
    using h1(1) r(1) by (simp add: call_heap_def)
  have "mset (?t # outs) = live h"
    using r(3) h1(6) top_in by simp
  moreover have "\<forall>x \<in> set outs. x \<le> ?t"
  proof
    fix x assume "x \<in> set outs"
    then have "x \<in># live h - {#?t#}" using r(3) h1(6) by (metis set_mset_mset)
    then have "x \<in># live h" by (rule in_diffD)
    with top_max show "x \<le> ?t" by simp
  qed
  ultimately show ?case
    using run r(2,4) by auto
qed

lemma binary_heap_sized_ok:
  "well_formed (binary_heap_sized dflt n) \<and> max_heap (binary_heap_sized dflt n) \<and>
   m_size (binary_heap_sized dflt n) = 0 \<and> m_sizeMax (binary_heap_sized dflt n) = n \<and>
   live (binary_heap_sized dflt n) = {#}"
  by (simp add: binary_heap_sized_def well_formed_def max_heap_def live_def)

text \<open>
  Claim C2. On a heap built by \<open>binary_heap(sizeMax)\<close> with \<open>sizeMax\<close> at least
  \<open>N\<close> and below \<open>2^30\<close>, inserting any \<open>N\<close> values and then calling \<open>extract_top\<close>
  \<open>N\<close> times returns normally, and the values returned are the inserted ones in
  non-increasing order; the heap is empty afterwards. In particular, on
  \<open>binary_heap<int>(5)\<close>, after inserting 3, 1, 4, 1, 5 in order \<open>top()\<close> returns 5,
  the five \<open>extract_top\<close> calls return 5, 4, 3, 1, 1 and \<open>empty()\<close> is then true.
\<close>

theorem insert_then_extract_sorts:
  "(length vs \<le> sizeMax \<and> sizeMax < 2 ^ 30 \<longrightarrow>
      (\<exists>outs h'. calls tmax (map Insert vs @ replicate (length vs) ExtractTop)
                   (binary_heap_sized dflt sizeMax) = Returns outs h' \<and>
         mset outs = mset vs \<and> sorted_wrt (\<lambda>a b. b \<le> a) outs \<and> empty_heap h')) \<and>
   (\<exists>h5 h0. calls imax (map Insert [3, 1, 4, 1, 5]) (binary_heap_sized (0 :: int) 5) = Returns [] h5 \<and>
      top_heap h5 = Returns 5 h5 \<and>
      calls imax (replicate 5 ExtractTop) h5 = Returns [5, 4, 3, 1, 1] h0 \<and>
      empty_heap h0)"
proof (intro conjI impI)
  assume le: "length vs \<le> sizeMax \<and> sizeMax < 2 ^ 30"
  let ?h = "binary_heap_sized dflt sizeMax"
  from le obtain h1 where h1: "calls tmax (map Insert vs) ?h = Returns [] h1" "well_formed h1" "max_heap h1"
    "m_size h1 = m_size ?h + length vs" "m_sizeMax h1 = m_sizeMax ?h" "live h1 = live ?h + mset vs"
    using calls_inserts[of ?h vs tmax] binary_heap_sized_ok[of dflt sizeMax] by auto
  then have "m_size h1 = length vs" and lv: "live h1 = mset vs" and "m_sizeMax h1 < 2 ^ 30"
    using binary_heap_sized_ok[of dflt sizeMax] le by simp_all
  with h1 obtain outs h' where r: "calls tmax (replicate (length vs) ExtractTop) h1 = Returns outs h'"
    "m_size h' = 0" "mset outs = live h1" "sorted_wrt (\<lambda>a b. b \<le> a) outs"
    using calls_extracts[of h1 "length vs" tmax] by blast
  have "calls tmax (map Insert vs @ replicate (length vs) ExtractTop) ?h = Returns outs h'"
    using h1(1) r(1) by (simp add: calls_append)
  with r lv show "\<exists>outs h'. calls tmax (map Insert vs @ replicate (length vs) ExtractTop) ?h = Returns outs h' \<and>
         mset outs = mset vs \<and> sorted_wrt (\<lambda>a b. b \<le> a) outs \<and> empty_heap h'"
    by (auto simp: empty_heap_def size_heap_def)
next
  let ?h5 = "\<lparr>m_sizeMax = 5, m_size = 5, m_heap = [5, 4, 3, 1, 1 :: int]\<rparr>"
  let ?h0 = "\<lparr>m_sizeMax = 5, m_size = 0, m_heap = [1, 1, 1, 1, 1 :: int]\<rparr>"
  have a: "calls imax (map Insert [3, 1, 4, 1, 5]) (binary_heap_sized (0 :: int) 5) = Returns [] ?h5"
    by code_simp
  have b: "top_heap ?h5 = Returns 5 ?h5"
    by code_simp
  have c: "calls imax (replicate 5 ExtractTop) ?h5 = Returns [5, 4, 3, 1, 1] ?h0"
    by code_simp
  have d: "empty_heap ?h0"
    by code_simp
  from a b c d show "\<exists>h5 h0. calls imax (map Insert [3, 1, 4, 1, 5]) (binary_heap_sized (0 :: int) 5) = Returns [] h5 \<and>
      top_heap h5 = Returns 5 h5 \<and>
      calls imax (replicate 5 ExtractTop) h5 = Returns [5, 4, 3, 1, 1] h0 \<and>
      empty_heap h0"
    by blast
qed

theorem insert_then_extract_sorts_witness:
  "length [2, 7, 1 :: int] \<le> 4 \<and> (4 :: nat) < 2 ^ 30 \<and>
   (\<exists>outs h'. calls 2147483647 (map Insert [2, 7, 1 :: int] @ replicate (length [2, 7, 1 :: int]) ExtractTop)
                   (binary_heap_sized 0 4) = Returns outs h' \<and>
         mset outs = mset [2, 7, 1] \<and> sorted_wrt (\<lambda>a b. b \<le> a) outs \<and> empty_heap h')"
  using insert_then_extract_sorts[of "[2, 7, 1 :: int]" 4 2147483647 0 0]
  by simp

section \<open>remove deletes the element at the index\<close>

lemma raise_except_up:
  assumes inv: "heap_upto n xs" and i: "i < n" and "n \<le> length xs"
    and above: "xs ! i \<le> x"
  shows "heap_except_up n (xs[i := x]) i"
  unfolding heap_except_up_def
proof (intro conjI allI impI)
  fix c assume c: "0 < c \<and> c < n \<and> c \<noteq> i"
  let ?q = "(c - 1) div 2"
  show "xs[i := x] ! c \<le> xs[i := x] ! ?q"
  proof (cases "?q = i")
    case True
    then have "xs ! c \<le> xs ! i" using c inv by (auto simp: heap_upto_def)
    with above True show ?thesis using c assms(2,3) by simp
  next
    case False
    then show ?thesis using c inv by (simp add: heap_upto_def)
  qed
next
  fix c assume c: "0 < c \<and> c < n \<and> (c - 1) div 2 = i \<and> 0 < i"
  then have "c \<noteq> i" "(i - 1) div 2 \<noteq> i" by auto
  moreover have "xs ! c \<le> xs ! i" using c inv by (auto simp: heap_upto_def)
  moreover have "xs ! i \<le> xs ! ((i - 1) div 2)" using c i inv by (simp add: heap_upto_def)
  ultimately show "xs[i := x] ! c \<le> xs[i := x] ! ((i - 1) div 2)"
    by simp
qed

lemma mset_take_update:
  assumes "i < n" and "n \<le> length xs"
  shows "mset (take n (xs[i := x])) = add_mset x (mset (take n xs) - {#xs ! i#})"
proof -
  have "take n (xs[i := x]) = (take n xs)[i := x]"
    by (simp add: take_update_swap)
  then show ?thesis
    using assms mset_update[of i "take n xs" x] by simp
qed

text \<open>
  Claim C5. Take a well-formed heap of fewer than \<open>2^30\<close> slots that satisfies the
  max-heap invariant, an index
  with \<open>0 \<le> index < count\<close>, and a sentinel \<open>tmax\<close> that is the maximum of the
  element type and equals no live element, so that every live element is strictly
  below it. Then \<open>remove(index)\<close> returns, and it deletes exactly that element:
  it overwrites the slot with the sentinel, \<open>sift_up\<close> brings the sentinel to the
  root, \<open>extract_top\<close> takes it out; afterwards the count is one less, the capacity
  is the same, the live multiset is the old one minus one occurrence of the
  removed element, and the invariant holds.
\<close>

theorem remove_heap_deletes_index:
  assumes wf: "well_formed h" and inv: "max_heap h"
    and lo: "0 \<le> index" and hi: "index < int (m_size h)"
    and below: "\<forall>j < m_size h. m_heap h ! j < tmax"
    and small: "m_sizeMax h < 2 ^ 30"
  shows "\<exists>h1 h'. sift_up (h\<lparr>m_heap := (m_heap h)[nat index := tmax]\<rparr>) index = Returns () h1 \<and>
           extract_top h1 = Returns tmax h' \<and>
           remove_heap tmax h index = Returns () h' \<and>
           m_size h' = m_size h - 1 \<and> m_sizeMax h' = m_sizeMax h \<and> well_formed h' \<and>
           live h' = live h - {#m_heap h ! nat index#} \<and> max_heap h'"
proof -
  let ?n = "m_size h" and ?xs = "m_heap h"
  define i where "i = nat index"
  from lo hi have i: "i < ?n" "index = int i" by (simp_all add: i_def)
  from wf have len: "?n \<le> length ?xs" by (simp add: well_formed_def)
  let ?ys = "?xs[i := tmax]"
  let ?h0 = "h\<lparr>m_heap := ?ys\<rparr>"
  have wr: "put ?xs index tmax = Some ?ys"
    using i len by (simp add: put_nat)
  have "heap_except_up ?n (m_heap ?h0) i"
    using raise_except_up[of ?n ?xs i tmax] inv i len below by (simp add: max_heap_iff less_imp_le)
  then obtain zs where zs: "sift_up ?h0 (int i) = Returns () (?h0\<lparr>m_heap := zs\<rparr>)"
    "length zs = length ?ys" "heap_upto ?n zs" "mset (take ?n zs) = mset (take ?n ?ys)"
    using sift_up_correct[of i ?n ?h0] i len by auto
  let ?h1 = "h\<lparr>m_heap := zs\<rparr>"
  have up: "sift_up ?h0 index = Returns () ?h1"
    using zs(1) i by simp
  have lv1: "live ?h1 = add_mset tmax (live h - {#?xs ! i#})"
    using zs(4) mset_take_update[of i ?n ?xs tmax] i len by (simp add: live_def)
  have wf1: "well_formed ?h1" and inv1: "max_heap ?h1" and pos1: "0 < m_size ?h1"
    using wf zs i by (simp_all add: well_formed_def max_heap_iff)
  then obtain h' where h': "extract_top ?h1 = Returns (zs ! 0) h'" "well_formed h'" "max_heap h'"
    "m_size h' = m_size ?h1 - 1" "m_sizeMax h' = m_sizeMax ?h1" "live h' = live ?h1 - {#zs ! 0#}"
    using extract_top_correct[of ?h1] small by auto
  have root: "zs ! 0 \<in># live ?h1" "\<forall>x \<in># live ?h1. x \<le> zs ! 0"
    using live_root[of ?h1] inv1 pos1 wf1 by (simp_all add: well_formed_def)
  have top: "zs ! 0 = tmax"
  proof (rule ccontr)
    assume ne: "zs ! 0 \<noteq> tmax"
    with root(1) lv1 have "zs ! 0 \<in># live h - {#?xs ! i#}" by simp
    then have "zs ! 0 \<in> set (take ?n ?xs)"
      by (auto simp: live_def dest: in_diffD)
    then obtain j where "j < ?n" "?xs ! j = zs ! 0"
      using len by (auto simp: in_set_conv_nth)
    with below have "zs ! 0 < tmax" by auto
    moreover have "tmax \<le> zs ! 0" using root(2) lv1 by simp
    ultimately show False by simp
  qed
  have "remove_heap tmax h index = Returns () h'"
    using wr up h'(1) by (simp add: remove_heap_def)
  moreover have "live h' = live h - {#?xs ! i#}"
    using h'(6) lv1 top by simp
  ultimately show ?thesis
    using up h' top by (auto simp: i_def)
qed

theorem remove_heap_deletes_index_witness:
  "well_formed \<lparr>m_sizeMax = 5, m_size = 4, m_heap = [9, 7, 8, 3, 0 :: int]\<rparr> \<and>
   max_heap \<lparr>m_sizeMax = 5, m_size = 4, m_heap = [9, 7, 8, 3, 0 :: int]\<rparr> \<and>
   remove_heap 2147483647 \<lparr>m_sizeMax = 5, m_size = 4, m_heap = [9, 7, 8, 3, 0 :: int]\<rparr> 1
     = Returns () \<lparr>m_sizeMax = 5, m_size = 3, m_heap = [9, 3, 8, 3, 0]\<rparr> \<and>
   live \<lparr>m_sizeMax = 5, m_size = 3, m_heap = [9, 3, 8, 3, 0 :: int]\<rparr> = {#9, 8, 3#} \<and>
   max_heap \<lparr>m_sizeMax = 5, m_size = 3, m_heap = [9, 3, 8, 3, 0 :: int]\<rparr>"
proof -
  let ?h = "\<lparr>m_sizeMax = 5, m_size = 4, m_heap = [9, 7, 8, 3, 0 :: int]\<rparr>"
  let ?h' = "\<lparr>m_sizeMax = 5, m_size = 3, m_heap = [9, 3, 8, 3, 0 :: int]\<rparr>"
  have run: "remove_heap 2147483647 ?h 1 = Returns () ?h'"
    by code_simp
  have wf: "well_formed ?h" by (simp add: well_formed_def)
  have inv: "max_heap ?h" by (simp add: max_heap_def atLeastLessThan_nat_numeral)
  have below: "\<forall>j < m_size ?h. m_heap ?h ! j < 2147483647"
    by (simp add: less_Suc_eq eval_nat_numeral)
  have small: "m_sizeMax ?h < 2 ^ 30" by simp
  from remove_heap_deletes_index[OF wf inv _ _ below small, of 1]
  obtain h' where "remove_heap 2147483647 ?h 1 = Returns () h'"
    "live h' = live ?h - {#m_heap ?h ! nat 1#}" "max_heap h'"
    by auto
  with run wf inv show ?thesis by (simp add: live_def eval_nat_numeral)
qed

section \<open>change\_priority with a greater value\<close>

text \<open>The branch of \<open>change_priority\<close> that calls \<open>sift_up\<close> does replace exactly
  the element at the index and keeps the invariant; only the \<open>sift_down\<close> branch
  meets the slot at index count.\<close>

lemma change_priority_raise:
  assumes wf: "well_formed h" and inv: "max_heap h"
    and lo: "0 \<le> index" and hi: "index < int (m_size h)"
    and gt: "m_heap h ! nat index < p"
  shows "\<exists>h'. change_priority h index p = Returns () h' \<and> well_formed h' \<and> max_heap h' \<and>
           m_size h' = m_size h \<and> m_sizeMax h' = m_sizeMax h \<and>
           live h' = add_mset p (live h - {#m_heap h ! nat index#})"
proof -
  let ?n = "m_size h" and ?xs = "m_heap h"
  define i where "i = nat index"
  from lo hi have i: "i < ?n" "index = int i" by (simp_all add: i_def)
  from wf have len: "?n \<le> length ?xs" by (simp add: well_formed_def)
  from gt have gt': "?xs ! i < p" by (simp add: i_def)
  let ?ys = "?xs[i := p]"
  let ?h0 = "h\<lparr>m_heap := ?ys\<rparr>"
  have "at ?xs index = Some (?xs ! i)" and "put ?xs index p = Some ?ys"
    using i len by (simp_all add: at_nat put_nat)
  then have call: "change_priority h index p = sift_up ?h0 (int i)"
    using gt' i by (simp add: change_priority_def)
  have "heap_except_up ?n (m_heap ?h0) i"
    using raise_except_up[of ?n ?xs i p] inv i len gt' by (simp add: max_heap_iff less_imp_le)
  then obtain zs where zs: "sift_up ?h0 (int i) = Returns () (?h0\<lparr>m_heap := zs\<rparr>)"
    "length zs = length ?ys" "heap_upto ?n zs" "mset (take ?n zs) = mset (take ?n ?ys)"
    using sift_up_correct[of i ?n ?h0] i len by auto
  have "mset (take ?n zs) = add_mset p (live h - {#?xs ! i#})"
    using zs(4) mset_take_update[of i ?n ?xs p] i len by (simp add: live_def)
  with zs call wf have "\<exists>h'. change_priority h index p = Returns () h' \<and> well_formed h' \<and> max_heap h' \<and>
           m_size h' = m_size h \<and> m_sizeMax h' = m_sizeMax h \<and>
           live h' = add_mset p (live h - {#?xs ! i#})"
    by (auto simp: well_formed_def max_heap_iff live_def)
  then show ?thesis
    by (simp only: i_def)
qed

end
